theory Spec2Isabelle
  imports Main
begin

section \<open>Strings of the program\<close>

text \<open>
  A JavaScript string is a sequence of UTF-16 code units.  A code unit is modelled by its
  number, a string by the list of its code units; \<open>ascii\<close> turns an ASCII literal of
  the source into such a list.  \<open>slice\<close>, \<open>includes\<close>, \<open>indexOf\<close> and
  \<open>lastIndexOf\<close> are the methods of \<open>String.prototype\<close> the program calls.
\<close>

type_synonym jsstring = "nat list"

definition ascii :: "string \<Rightarrow> jsstring" where
  "ascii cs = map of_char cs"

fun starts_with :: "jsstring \<Rightarrow> jsstring \<Rightarrow> bool" where
  "starts_with s [] = True"
| "starts_with [] (c # sub) = False"
| "starts_with (x # s) (c # sub) = (x = c \<and> starts_with s sub)"

text \<open>
  The searches read the string from index \<open>i\<close> on; \<open>None\<close> stands for the result -1.
\<close>

fun index_from :: "jsstring \<Rightarrow> jsstring \<Rightarrow> nat \<Rightarrow> nat option" where
  "index_from [] sub i = (if sub = [] then Some i else None)"
| "index_from (x # xs) sub i =
     (if starts_with (x # xs) sub then Some i else index_from xs sub (Suc i))"

fun last_index_from :: "jsstring \<Rightarrow> jsstring \<Rightarrow> nat \<Rightarrow> nat option" where
  "last_index_from [] sub i = (if sub = [] then Some i else None)"
| "last_index_from (x # xs) sub i =
     (case last_index_from xs sub (Suc i) of
        Some k \<Rightarrow> Some k
      | None \<Rightarrow> (if starts_with (x # xs) sub then Some i else None))"

definition indexOf :: "jsstring \<Rightarrow> jsstring \<Rightarrow> nat option" where
  "indexOf s sub = index_from s sub 0"

definition lastIndexOf :: "jsstring \<Rightarrow> jsstring \<Rightarrow> nat option" where
  "lastIndexOf s sub = last_index_from s sub 0"

definition str_includes :: "jsstring \<Rightarrow> jsstring \<Rightarrow> bool" where
  "str_includes s sub = (indexOf s sub \<noteq> None)"

definition slice :: "jsstring \<Rightarrow> nat \<Rightarrow> nat \<Rightarrow> jsstring" where
  "slice s a b = drop a (take b s)"

section \<open>Regular expressions\<close>

text \<open>
  The patterns of the program, as a datatype, and the backtracking matcher of
  ECMAScript.  A matcher state is the input split at the current position: the code
  units consumed so far (the nearest first), the code units still to read, and the
  captures (group number and captured text, the most recent first).  \<open>rmatch r st\<close>
  lists, in the order in which the matcher tries them, the states in which \<open>r\<close> can
  end when started in \<open>st\<close>.  Greedy quantifiers try the longer match first, an
  alternative its left branch first, so the head of the list for a whole pattern is the
  match ECMAScript reports.  An iteration of \<open>*\<close> that consumes nothing is rejected,
  as RepeatMatcher does.  No pattern of the program has a group under a quantifier, so
  the reset of captures at each iteration is not modelled.
\<close>

datatype regex =
    Eps
  | Chr nat
  | Cls "nat \<Rightarrow> bool"
  | Seq regex regex
  | Alt regex regex
  | Star regex
  | Opt regex
  | Bol
  | Eol
  | WordB
  | Group nat regex

type_synonym captures = "(nat \<times> jsstring) list"
type_synonym mstate = "jsstring \<times> jsstring \<times> captures"

definition is_space :: "nat \<Rightarrow> bool" where
  "is_space c = (c \<in> {9, 10, 11, 12, 13, 32, 160, 5760, 8232, 8233, 8239, 8287, 12288, 65279}
     \<or> (8192 \<le> c \<and> c \<le> 8202))"

definition is_line_terminator :: "nat \<Rightarrow> bool" where
  "is_line_terminator c = (c \<in> {10, 13, 8232, 8233})"

definition is_word_char :: "nat \<Rightarrow> bool" where
  "is_word_char c = ((97 \<le> c \<and> c \<le> 122) \<or> (65 \<le> c \<and> c \<le> 90) \<or> (48 \<le> c \<and> c \<le> 57) \<or> c = 95)"

fun starts_word :: "jsstring \<Rightarrow> bool" where
  "starts_word [] = False"
| "starts_word (c # cs) = is_word_char c"

function rmatch :: "regex \<Rightarrow> mstate \<Rightarrow> mstate list" where
  "rmatch Eps st = [st]"
| "rmatch (Chr c) (b, [], cs) = []"
| "rmatch (Chr c) (b, x # xs, cs) = (if x = c then [(x # b, xs, cs)] else [])"
| "rmatch (Cls p) (b, [], cs) = []"
| "rmatch (Cls p) (b, x # xs, cs) = (if p x then [(x # b, xs, cs)] else [])"
| "rmatch (Seq r1 r2) st = concat (map (\<lambda>st'. rmatch r2 st') (rmatch r1 st))"
| "rmatch (Alt r1 r2) st = rmatch r1 st @ rmatch r2 st"
| "rmatch (Star r) (b, xs, cs) =
     concat (map (\<lambda>st'. rmatch (Star r) st')
                 (filter (\<lambda>st'. length (fst (snd st')) < length xs) (rmatch r (b, xs, cs))))
     @ [(b, xs, cs)]"
| "rmatch (Opt r) st = rmatch r st @ [st]"
| "rmatch Bol (b, xs, cs) = (if b = [] then [(b, xs, cs)] else [])"
| "rmatch Eol (b, xs, cs) = (if xs = [] then [(b, xs, cs)] else [])"
| "rmatch WordB (b, xs, cs) = (if starts_word b \<noteq> starts_word xs then [(b, xs, cs)] else [])"
| "rmatch (Group k r) (b, xs, cs) =
     map (\<lambda>(b', xs', cs'). (b', xs', (k, rev (take (length b' - length b) b')) # cs'))
         (rmatch r (b, xs, cs))"
  by pat_completeness auto
termination
  by (relation "measures [\<lambda>(r, st). size r, \<lambda>(r, st). length (fst (snd st))]") auto

text \<open>
  \<open>regex_search r b xs\<close> is RegExpBuiltinExec without the sticky flag: the first
  position at or after the current one where the pattern matches, as the index of the
  match and the state in which it ends.
\<close>

fun regex_search :: "regex \<Rightarrow> jsstring \<Rightarrow> jsstring \<Rightarrow> (nat \<times> mstate) option" where
  "regex_search r b [] = (case rmatch r (b, [], []) of [] \<Rightarrow> None | st # _ \<Rightarrow> Some (length b, st))"
| "regex_search r b (x # xs) =
     (case rmatch r (b, x # xs, []) of
        [] \<Rightarrow> regex_search r (x # b) xs
      | st # _ \<Rightarrow> Some (length b, st))"

definition regex_exec :: "regex \<Rightarrow> jsstring \<Rightarrow> (nat \<times> mstate) option" where
  "regex_exec r s = regex_search r [] s"

definition regex_test :: "regex \<Rightarrow> jsstring \<Rightarrow> bool" where
  "regex_test r s = (regex_exec r s \<noteq> None)"

text \<open>
  \<open>lit s r\<close> is the pattern that reads the characters of \<open>s\<close> and goes on with
  \<open>r\<close>; \<open>liti\<close> is the same under the flag \<open>i\<close>.  Without the flag \<open>u\<close>, two
  code units match under \<open>i\<close> when Canonicalize maps them to the same one; it maps an
  ASCII letter to its upper case and no code unit from 128 on to an ASCII one, which is
  all that patterns of ASCII characters ask of it.
\<close>

fun lit :: "jsstring \<Rightarrow> regex \<Rightarrow> regex" where
  "lit [] r = r"
| "lit (c # cs) r = Seq (Chr c) (lit cs r)"

definition canonicalize :: "nat \<Rightarrow> nat" where
  "canonicalize c = (if 97 \<le> c \<and> c \<le> 122 then c - 32 else c)"

fun liti :: "jsstring \<Rightarrow> regex \<Rightarrow> regex" where
  "liti [] r = r"
| "liti (c # cs) r = Seq (Cls (\<lambda>x. canonicalize x = canonicalize c)) (liti cs r)"

definition spaces :: regex where
  "spaces = Star (Cls is_space)"


text \<open>
  The parts of a match result that the program reads: \<open>m.index\<close> and \<open>m[0]\<close>;
  \<open>capture m k\<close> is the text of group \<open>k\<close> (the empty string here when the group
  took no part in the match; every group of the program's patterns takes part).
\<close>

definition match_index :: "nat \<times> mstate \<Rightarrow> nat" where
  "match_index m = fst m"

definition match_text :: "nat \<times> mstate \<Rightarrow> jsstring" where
  "match_text m = (let b = fst (snd m) in rev (take (length b - fst m) b))"

definition match_rest :: "nat \<times> mstate \<Rightarrow> jsstring" where
  "match_rest m = fst (snd (snd m))"

definition capture :: "nat \<times> mstate \<Rightarrow> nat \<Rightarrow> jsstring" where
  "capture m k = (case map_of (snd (snd (snd m))) k of None \<Rightarrow> [] | Some t \<Rightarrow> t)"

declare rmatch.simps(8) [simp del]

text \<open>
  A match moves the position forward over the same input: what the termination of the
  global match below rests on.
\<close>

lemma rmatch_input:
  "st' \<in> set (rmatch r st) \<Longrightarrow>
     rev (fst st') @ fst (snd st') = rev (fst st) @ fst (snd st) \<and> length (fst (snd st')) \<le> length (fst (snd st))"
proof (induction r st arbitrary: st' rule: rmatch.induct)
  case (1 st)
  then show ?case by simp
next
  case (2 c b cs)
  then show ?case by simp
next
  case (3 c b x xs cs)
  then show ?case by (simp split: if_splits)
next
  case (4 p b cs)
  then show ?case by simp
next
  case (5 p b x xs cs)
  then show ?case by (simp split: if_splits)
next
  case (6 r1 r2 st)
  from "6.prems" obtain st1 where a: "st1 \<in> set (rmatch r1 st)" and b: "st' \<in> set (rmatch r2 st1)"
    by auto
  from "6.IH"(1)[OF a] "6.IH"(2)[OF a b] show ?case by simp
next
  case (7 r1 r2 st)
  from "7.prems" have "st' \<in> set (rmatch r1 st) \<or> st' \<in> set (rmatch r2 st)" by simp
  then show ?case using "7.IH" by blast
next
  case (8 r b xs cs)
  from "8.prems" have "st' = (b, xs, cs) \<or> (\<exists>st1 \<in> set (rmatch r (b, xs, cs)).
      length (fst (snd st1)) < length xs \<and> st' \<in> set (rmatch (Star r) st1))"
    unfolding rmatch.simps(8) by auto
  then consider "st' = (b, xs, cs)"
    | st1 where "st1 \<in> set (rmatch r (b, xs, cs))" "length (fst (snd st1)) < length xs" "st' \<in> set (rmatch (Star r) st1)"
    by blast
  then show ?case
  proof cases
    case 1
    then show ?thesis by simp
  next
    case 2
    from "8.IH"(1)[OF 2(1)] "8.IH"(2)[of st1 st'] 2 show ?thesis by simp
  qed
next
  case (9 r st)
  from "9.prems" have "st' \<in> set (rmatch r st) \<or> st' = st" by auto
  then show ?case using "9.IH" by blast
next
  case (10 b xs cs)
  then show ?case by (simp split: if_splits)
next
  case (11 b xs cs)
  then show ?case by (simp split: if_splits)
next
  case (12 b xs cs)
  then show ?case by (simp split: if_splits)
next
  case (13 k r b xs cs)
  from "13.prems" obtain b' xs' cs' where a: "(b', xs', cs') \<in> set (rmatch r (b, xs, cs))"
    and b: "fst st' = b'" "fst (snd st') = xs'"
    by auto
  from "13.IH"[OF a] b show ?case by simp
qed


lemma rmatch_hd_input:
  assumes "rmatch r st = st' # sts"
  shows "rev (fst st') @ fst (snd st') = rev (fst st) @ fst (snd st)"
    and "length (fst (snd st')) \<le> length (fst (snd st))"
  using rmatch_input[of st' r st] assms by simp_all

lemma regex_search_input:
  "regex_search r b xs = Some (i, st') \<Longrightarrow>
     length b \<le> i \<and> rev (fst st') @ fst (snd st') = rev b @ xs \<and> length (fst (snd st')) \<le> length xs"
proof (induction xs arbitrary: b)
  case Nil
  then show ?case
    by (auto split: list.splits dest: rmatch_hd_input)
next
  case (Cons x xs)
  show ?case
  proof (cases "rmatch r (b, x # xs, [])")
    case Nil
    with Cons.prems have "regex_search r (x # b) xs = Some (i, st')" by simp
    from Cons.IH[OF this] show ?thesis by simp
  next
    case (Cons st sts)
    with Cons.prems have "i = length b" "st' = st" by simp_all
    with rmatch_hd_input[OF Cons] show ?thesis by simp
  qed
qed

declare rmatch.simps(1-7) [simp del]

declare rmatch.simps(9-13) [simp del]

lemmas rmatch_Seq = rmatch.simps(6)

text \<open>
  \<open>s.match(re)\<close> for a pattern with the global flag: the texts of the successive
  matches, each search starting where the last match ended (one further after an
  empty match); the empty list stands for \<open>null\<close>.
\<close>

function match_all :: "regex \<Rightarrow> jsstring \<Rightarrow> jsstring \<Rightarrow> jsstring list" where
  "match_all r b xs =
     (case regex_search r b xs of
        None \<Rightarrow> []
      | Some m \<Rightarrow>
          (if match_text m \<noteq> [] then match_text m # match_all r (fst (snd m)) (match_rest m)
           else (case match_rest m of
                   [] \<Rightarrow> [match_text m]
                 | y # ys \<Rightarrow> match_text m # match_all r (y # fst (snd m)) ys)))"
  by pat_completeness auto
termination match_all
proof (relation "measure (\<lambda>(r, b, xs). length xs)", goal_cases)
  case 1
  then show ?case by simp
next
  case (2 r b xs m)
  obtain i st' where m: "m = (i, st')" by (cases m)
  from 2 m regex_search_input[of r b xs i st'] 
  have a: "length b \<le> i" "rev (fst st') @ fst (snd st') = rev b @ xs" by simp_all
  from 2(2) m have "i < length (fst st')" by (simp add: match_text_def Let_def)
  moreover from a(2) have "length (fst st') + length (fst (snd st')) = length b + length xs"
    by (metis length_append length_rev)
  ultimately show ?case using a(1) m by (simp add: match_rest_def)
next
  case (3 r b xs m y ys)
  obtain i st' where m: "m = (i, st')" by (cases m)
  from 3 m regex_search_input[of r b xs i st'] 
  have "length (fst (snd st')) \<le> length xs" by simp
  with 3 m show ?case by (simp add: match_rest_def)
qed

declare match_all.simps [simp del]

text \<open>
  \<open>s.replace(re, f)\<close> for a pattern without the global flag: the first match is
  replaced by what \<open>f\<close> makes of it; a string without a match is returned as it is.
\<close>

definition regex_replace :: "regex \<Rightarrow> jsstring \<Rightarrow> (nat \<times> mstate \<Rightarrow> jsstring) \<Rightarrow> jsstring" where
  "regex_replace r s f =
     (case regex_exec r s of
        None \<Rightarrow> s
      | Some m \<Rightarrow> take (match_index m) s @ f m @ match_rest m)"

section \<open>wrapJSXReturn\<close>

text \<open>The pattern \<^verbatim>\<open>/return\s*\(\s*<[^>]/m\<close> (there is no \<^verbatim>\<open>^\<close> or \<^verbatim>\<open>$\<close> for the flag to change).\<close>

definition re_return_jsx :: regex where
  "re_return_jsx =
     lit (ascii ''return'') (Seq spaces (Seq (Chr 40) (Seq spaces
       (Seq (Chr 60) (Cls (\<lambda>c. c \<noteq> 62))))))"

text \<open>
  The guard of line 231 is a regular expression literal, not a template.  It reads: a
  backslash-escaped \<^verbatim>\<open><\<close> (the character itself), \<^verbatim>\<open>\s*\<close>, then
  \<^verbatim>\<open>${Provider}\<close> and \<^verbatim>\<open>\b\<close>.  In a literal, \<^verbatim>\<open>$\<close> is the end-of-input
  assertion, and \<^verbatim>\<open>{Provider}\<close>, which is no quantifier, stands for its own
  characters, braces included.
\<close>

definition re_double_wrap :: regex where
  "re_double_wrap =
     Seq (Chr 60) (Seq spaces (Seq Eol (lit (ascii ''{Provider}'') WordB)))"

text \<open>
  The loop that looks for the closing parenthesis.  Its first argument is what the loop
  has still to read, \<open>code.slice(i)\<close>; the result is \<open>endIdx\<close>, \<open>None\<close> for -1.
\<close>

fun scan_close :: "jsstring \<Rightarrow> nat \<Rightarrow> nat \<Rightarrow> nat option" where
  "scan_close [] i depth = None"
| "scan_close (ch # rest) i depth =
     (if ch = 40 then scan_close rest (i + 1) (depth + 1)
      else if ch = 41 then (if depth = 0 then Some i else scan_close rest (i + 1) (depth - 1))
      else scan_close rest (i + 1) depth)"

definition open_tag :: "jsstring \<Rightarrow> jsstring" where
  "open_tag Provider = [60] @ Provider @ [62]"

definition close_tag :: "jsstring \<Rightarrow> jsstring" where
  "close_tag Provider = [60, 47] @ Provider @ [62]"

definition wrapJSXReturn :: "jsstring \<Rightarrow> jsstring \<Rightarrow> jsstring" where
  "wrapJSXReturn code Provider =
     (case regex_exec re_return_jsx code of
        None \<Rightarrow> code
      | Some m \<Rightarrow>
          (let start = match_index m + length (match_text m) - 1 in
           case scan_close (drop start code) start 0 of
             None \<Rightarrow> code
           | Some endIdx \<Rightarrow>
               (let before = slice code 0 start;
                    inside = slice code start endIdx;
                    after = drop endIdx code
                in if regex_test re_double_wrap inside then code
                   else before @ (open_tag Provider @ inside @ close_tag Provider) @ after)))"

definition providerName :: jsstring where
  "providerName = ascii ''NotificationsProvider''"


section \<open>The manifest and the stack\<close>

text \<open>
  What \<open>JSON.parse\<close> returns.  Of a number the program only uses whether it is zero.
  An object is the list of its own properties.  \<open>JSON.parse\<close> itself belongs to the
  runtime: the model takes it as a parameter \<open>parse\<close>, \<open>None\<close> where it throws.
\<close>

datatype json =
    JNull
  | JBool bool
  | JNumber int
  | JString jsstring
  | JArray "json list"
  | JObject "(jsstring \<times> json) list"

datatype node = File jsstring | Directory

text \<open>The files under the working directory, by their path relative to it.\<close>

type_synonym filesystem = "jsstring \<Rightarrow> node option"

datatype error = ENOENT jsstring | EISDIR jsstring | ENOTDIR jsstring | EEXIST jsstring

definition existsSync :: "filesystem \<Rightarrow> jsstring \<Rightarrow> bool" where
  "existsSync fs p = (fs p \<noteq> None)"

definition readFileSync :: "filesystem \<Rightarrow> jsstring \<Rightarrow> error + jsstring" where
  "readFileSync fs p =
     (case fs p of
        None \<Rightarrow> Inl (ENOENT p)
      | Some Directory \<Rightarrow> Inl (EISDIR p)
      | Some (File content) \<Rightarrow> Inr content)"

text \<open>
  \<open>writeFileSync\<close> fails on a directory.  The program writes only where the directory
  of the file exists (it has just made it, or has read the file before), so that check is
  left out.
\<close>

definition writeFileSync :: "filesystem \<Rightarrow> jsstring \<Rightarrow> jsstring \<Rightarrow> error + filesystem" where
  "writeFileSync fs p content =
     (case fs p of
        Some Directory \<Rightarrow> Inl (EISDIR p)
      | _ \<Rightarrow> Inr (fs(p \<mapsto> File content)))"

definition readJSONSafe :: "(jsstring \<Rightarrow> json option) \<Rightarrow> filesystem \<Rightarrow> jsstring \<Rightarrow> json" where
  "readJSONSafe parse fs p =
     (case readFileSync fs p of
        Inl e \<Rightarrow> JNull
      | Inr content \<Rightarrow> (case parse content of None \<Rightarrow> JNull | Some v \<Rightarrow> v))"

fun truthy :: "json \<Rightarrow> bool" where
  "truthy JNull = False"
| "truthy (JBool b) = b"
| "truthy (JNumber n) = (n \<noteq> 0)"
| "truthy (JString s) = (s \<noteq> [])"
| "truthy (JArray xs) = True"
| "truthy (JObject kvs) = True"

text \<open>\<open>v.k || {}\<close> for one of the two keys the program reads; only an object has them.\<close>

fun prop_or_empty :: "json \<Rightarrow> jsstring \<Rightarrow> json" where
  "prop_or_empty (JObject kvs) k =
     (case map_of kvs k of None \<Rightarrow> JObject [] | Some v \<Rightarrow> (if truthy v then v else JObject []))"
| "prop_or_empty v k = JObject []"

fun decimal :: "nat \<Rightarrow> jsstring" where
  "decimal n = (if n < 10 then [48 + n] else decimal (n div 10) @ [48 + n mod 10])"

text \<open>
  The keys that the spread \<open>{...v}\<close> copies: the own properties of an object, the
  indices of an array or of a string, nothing of a number or a boolean.
\<close>

fun spread_keys :: "json \<Rightarrow> jsstring list" where
  "spread_keys (JObject kvs) = map fst kvs"
| "spread_keys (JArray xs) = map decimal [0..<length xs]"
| "spread_keys (JString s) = map decimal [0..<length s]"
| "spread_keys v = []"

definition object_prototype_keys :: "jsstring list" where
  "object_prototype_keys = map ascii
     [''constructor'', ''__defineGetter__'', ''__defineSetter__'', ''hasOwnProperty'',
      ''__lookupGetter__'', ''__lookupSetter__'', ''isPrototypeOf'', ''propertyIsEnumerable'',
      ''toString'', ''valueOf'', ''__proto__'', ''toLocaleString'']"

text \<open>\<open>k in deps\<close>, for an object literal with the own keys \<open>keys\<close>.\<close>

definition js_in :: "jsstring \<Rightarrow> jsstring list \<Rightarrow> bool" where
  "js_in k keys = (k \<in> set keys \<or> k \<in> set object_prototype_keys)"

datatype stack = Next | ReactNative | React

definition merged_deps :: "(jsstring \<Rightarrow> json option) \<Rightarrow> filesystem \<Rightarrow> jsstring list" where
  "merged_deps parse fs =
     (let v = readJSONSafe parse fs (ascii ''package.json'');
          pkg = (if truthy v then v else JObject [])
      in spread_keys (prop_or_empty pkg (ascii ''dependencies''))
         @ spread_keys (prop_or_empty pkg (ascii ''devDependencies'')))"

definition detect_stack :: "(jsstring \<Rightarrow> json option) \<Rightarrow> filesystem \<Rightarrow> stack" where
  "detect_stack parse fs =
     (let deps = merged_deps parse fs;
          isNext = js_in (ascii ''next'') deps;
          isRN = (js_in (ascii ''react-native'') deps
                  \<or> existsSync fs (ascii ''app.json'')
                  \<or> existsSync fs (ascii ''expo.json'')
                  \<or> existsSync fs (ascii ''expo.config.js''))
      in if isNext then Next else if isRN then ReactNative else React)"

section \<open>The root file\<close>

definition candidates :: "jsstring list" where
  "candidates = map ascii
     [''app/layout.tsx'', ''app/layout.jsx'', ''src/app/layout.tsx'', ''src/app/layout.jsx'',
      ''app/_layout.tsx'', ''app/_layout.jsx'',
      ''App.tsx'', ''App.jsx'', ''src/App.tsx'', ''src/App.jsx'', ''App.js'', ''src/App.js'',
      ''index.tsx'', ''index.jsx'', ''src/index.tsx'', ''src/index.jsx'']"

definition find_root :: "filesystem \<Rightarrow> jsstring option" where
  "find_root fs = List.find (existsSync fs) candidates"


section \<open>Paths\<close>

text \<open>
  \<open>path.dirname\<close> and \<open>path.relative\<close> on POSIX, for normalized paths under the
  working directory, which is what the program passes: a path is cut at the slashes,
  and the relative path climbs out of what is left of \<open>from\<close> once the common
  directories are dropped.  \<open>posixPath\<close> is the identity where \<open>path.sep\<close> is a slash.
\<close>

fun split_on :: "nat \<Rightarrow> jsstring \<Rightarrow> jsstring list" where
  "split_on c [] = [[]]"
| "split_on c (x # xs) =
     (if x = c then [] # split_on c xs
      else (case split_on c xs of [] \<Rightarrow> [[x]] | seg # segs \<Rightarrow> (x # seg) # segs))"

fun join_with :: "nat \<Rightarrow> jsstring list \<Rightarrow> jsstring" where
  "join_with c [] = []"
| "join_with c [s] = s"
| "join_with c (s # ss) = s @ [c] @ join_with c ss"

definition segments :: "jsstring \<Rightarrow> jsstring list" where
  "segments p = filter (\<lambda>seg. seg \<noteq> []) (split_on 47 p)"

definition path_dirname :: "jsstring \<Rightarrow> jsstring" where
  "path_dirname p = join_with 47 (butlast (segments p))"

fun drop_common :: "jsstring list \<Rightarrow> jsstring list \<Rightarrow> jsstring list \<times> jsstring list" where
  "drop_common (x # xs) (y # ys) = (if x = y then drop_common xs ys else (x # xs, y # ys))"
| "drop_common xs ys = (xs, ys)"

definition path_relative :: "jsstring \<Rightarrow> jsstring \<Rightarrow> jsstring" where
  "path_relative src dst =
     (case drop_common (segments src) (segments dst) of
        (up, down) \<Rightarrow> join_with 47 (map (\<lambda>seg. ascii ''..'') up @ down))"

definition posixPath :: "jsstring \<Rightarrow> jsstring" where
  "posixPath p = join_with 47 (split_on 47 p)"

section \<open>The provider template\<close>

text \<open>\<^verbatim>\<open>/\.tsx?$/\<close> and \<^verbatim>\<open>/\.jsx?$/\<close>.\<close>

definition re_ts :: regex where
  "re_ts = Seq (Chr 46) (lit (ascii ''ts'') (Seq (Opt (Chr 120)) Eol))"

definition re_js :: regex where
  "re_js = Seq (Chr 46) (lit (ascii ''js'') (Seq (Opt (Chr 120)) Eol))"

definition targetDir :: jsstring where
  "targetDir = ascii ''src/nim-react-toastify''"

definition providerFile :: "jsstring \<Rightarrow> jsstring" where
  "providerFile rootPath =
     targetDir @ [47] @ providerName @ [46]
       @ (if regex_test re_ts rootPath then ascii ''tsx'' else ascii ''jsx'')"

text \<open>
  \<open>mkdirSync(p, {recursive: true})\<close>: every directory on the way is made when it is
  missing; a file in the way is an error.
\<close>

fun mkdirs :: "filesystem \<Rightarrow> jsstring \<Rightarrow> jsstring list \<Rightarrow> error option \<times> filesystem" where
  "mkdirs fs parent [] = (None, fs)"
| "mkdirs fs parent (seg # segs) =
     (let p = (if parent = [] then seg else parent @ [47] @ seg) in
      case fs p of
        Some (File content) \<Rightarrow> (Some (if segs = [] then EEXIST p else ENOTDIR p), fs)
      | _ \<Rightarrow> mkdirs (fs(p \<mapsto> Directory)) p segs)"

definition mkdirSync_recursive :: "filesystem \<Rightarrow> jsstring \<Rightarrow> error option \<times> filesystem" where
  "mkdirSync_recursive fs p = mkdirs fs [] (segments p)"

text \<open>The files of the package, by their path relative to the directory of the script.\<close>

definition readTemplate :: "(jsstring \<Rightarrow> jsstring option) \<Rightarrow> jsstring \<Rightarrow> error + jsstring" where
  "readTemplate pkgdir relPath =
     (case pkgdir relPath of None \<Rightarrow> Inl (ENOENT relPath) | Some content \<Rightarrow> Inr content)"

datatype level = LOG | WARN | ERR

text \<open>What the program prints, by line of the source rather than by its text.\<close>

datatype message =
    DetectingStack
  | DetectedStack stack
  | NoRootFile
  | RootFile jsstring
  | Created jsstring
  | ProviderExists jsstring
  | InsertedImport
  | ImportExists
  | FallbackWrapper
  | Updated jsstring
  | Done
  | UsageImport jsstring
  | UsageHook
  | UsageShow bool
  | Caught error

type_synonym console = "(level \<times> message) list"

text \<open>Lines 81 to 94: the template is written only where nothing exists yet.\<close>

definition emit_template ::
  "(jsstring \<Rightarrow> jsstring option) \<Rightarrow> stack \<Rightarrow> jsstring \<Rightarrow> filesystem \<Rightarrow> error + (filesystem \<times> console)" where
  "emit_template pkgdir stk pfile fs =
     (if \<not> existsSync fs pfile then
        (case (if stk = ReactNative then readTemplate pkgdir (ascii ''templates/provider.rn.tsx'')
               else readTemplate pkgdir (ascii ''templates/provider.web.tsx'')) of
           Inl e \<Rightarrow> Inl e
         | Inr template \<Rightarrow>
             (case writeFileSync fs pfile template of
                Inl e \<Rightarrow> Inl e
              | Inr fs' \<Rightarrow> Inr (fs', [(LOG, Created pfile)])))
      else Inr (fs, [(WARN, ProviderExists pfile)]))"


text \<open>The template that line 83 chooses.\<close>

definition template_path :: "stack \<Rightarrow> jsstring" where
  "template_path stk =
     (if stk = ReactNative then ascii ''templates/provider.rn.tsx''
      else ascii ''templates/provider.web.tsx'')"

section \<open>The import\<close>

text \<open>
  Lines 99 to 105.  The first \<open>replace\<close> puts back what it matched, the second turns
  every backslash into a slash, the last two cut the extension.
\<close>

definition re_dotdot :: regex where
  "re_dotdot = Seq Bol (lit (ascii ''..'') Eps)"

definition importLine :: "jsstring \<Rightarrow> jsstring" where
  "importLine rootPath =
     (let rel0 = posixPath (path_relative (path_dirname rootPath) (providerFile rootPath));
          rel1 = regex_replace re_dotdot rel0 match_text;
          rel2 = map (\<lambda>c. if c = 92 then 47 else c) rel1;
          rel3 = regex_replace re_ts rel2 (\<lambda>m. []);
          rel4 = regex_replace re_js rel3 (\<lambda>m. [])
      in ascii ''import { '' @ providerName @ ascii '' } from '' @ [34] @ rel4 @ [34, 59])"

text \<open>The pattern built at line 109: \<^verbatim>\<open>import\s*\{\s*NotificationsProvider\s*\}\<close>.\<close>

definition re_import_provider :: regex where
  "re_import_provider =
     lit (ascii ''import'') (Seq spaces (Seq (Chr 123) (Seq spaces
       (lit providerName (Seq spaces (Chr 125))))))"

text \<open>\<^verbatim>\<open>/(^|\n)import .*;?/g\<close>: the dot reads anything but a line terminator.\<close>

definition re_import_stmt :: regex where
  "re_import_stmt =
     Seq (Group 1 (Alt Bol (Chr 10)))
       (lit (ascii ''import '') (Seq (Star (Cls (\<lambda>c. \<not> is_line_terminator c))) (Opt (Chr 59))))"

text \<open>
  Lines 107 to 123.  \<open>lastIndexOf\<close> of a text taken from \<open>code\<close> always finds it; the
  branch for -1 is what the arithmetic of the source would give.
\<close>

definition inject_import :: "jsstring \<Rightarrow> jsstring \<Rightarrow> jsstring \<times> console" where
  "inject_import line code =
     (if \<not> str_includes code line \<and> \<not> regex_test re_import_provider code then
        (case match_all re_import_stmt [] code of
           [] \<Rightarrow> (line @ [10] @ code, [(LOG, InsertedImport)])
         | m # ms \<Rightarrow>
             (let lastImport = last (m # ms);
                  idx = (case lastIndexOf code lastImport of
                           None \<Rightarrow> length lastImport - 1
                         | Some k \<Rightarrow> k + length lastImport)
              in (slice code 0 idx @ [10] @ line @ [10] @ drop idx code, [(LOG, InsertedImport)])))
      else (code, [(WARN, ImportExists)]))"

section \<open>The wrapper\<close>

text \<open>
  The patterns of lines 136 to 150: \<^verbatim>\<open>/export default function/i\<close>,
  \<^verbatim>\<open>/return\s*\(\s*<html([^>]*)>\s*<body([^>]*)>/i\<close>,
  \<^verbatim>\<open>/<\/body>\s*<\/html>\s*\)\s*;?\s*$/i\<close>, \<^verbatim>\<open>/return\s*\(/\<close> and
  \<^verbatim>\<open>/return\s*\(\s*/\<close>.
\<close>

definition re_export_default :: regex where
  "re_export_default = liti (ascii ''export default function'') Eps"

definition re_html_body :: regex where
  "re_html_body =
     liti (ascii ''return'') (Seq spaces (Seq (Chr 40) (Seq spaces
       (liti (ascii ''<html'') (Seq (Group 1 (Star (Cls (\<lambda>c. c \<noteq> 62)))) (Seq (Chr 62) (Seq spaces
         (liti (ascii ''<body'') (Seq (Group 2 (Star (Cls (\<lambda>c. c \<noteq> 62)))) (Chr 62))))))))))"

definition re_body_html_end :: regex where
  "re_body_html_end =
     liti (ascii ''</body>'') (Seq spaces (liti (ascii ''</html>'') (Seq spaces (Seq (Chr 41)
       (Seq spaces (Seq (Opt (Chr 59)) (Seq spaces Eol)))))))"

definition re_return_paren :: regex where
  "re_return_paren = lit (ascii ''return'') (Seq spaces (Chr 40))"

definition re_return_paren_spaces :: regex where
  "re_return_paren_spaces = lit (ascii ''return'') (Seq spaces (Seq (Chr 40) spaces))"

text \<open>Lines 139 to 147, the fallback for a layout of the Next.js App Router.\<close>

definition wrap_children :: "jsstring \<Rightarrow> jsstring" where
  "wrap_children code =
     regex_replace re_body_html_end
       (regex_replace re_html_body code
          (\<lambda>m. ascii ''return (<html'' @ capture m 1 @ ascii ''><body'' @ capture m 2
                @ ascii ''><'' @ providerName @ ascii ''>''))
       (\<lambda>m. ascii ''</'' @ providerName @ ascii ''></body></html>)'')"

text \<open>Lines 150 to 157, the generic fallback.\<close>

definition wrap_generic :: "jsstring \<Rightarrow> jsstring" where
  "wrap_generic code =
     (let code1 = regex_replace re_return_paren_spaces code
                    (\<lambda>m. match_text m @ open_tag providerName)
      in case lastIndexOf code1 (ascii '');'') of
           None \<Rightarrow> code1
         | Some lastParen \<Rightarrow>
             slice code1 0 lastParen @ close_tag providerName @ drop lastParen code1)"

datatype strategy = NextLayout | Generic | NoStrategy

definition fallback_strategy :: "stack \<Rightarrow> jsstring \<Rightarrow> strategy" where
  "fallback_strategy stk code =
     (if stk = Next \<and> regex_test re_export_default code
          \<and> str_includes code (ascii ''{ children }'')
      then NextLayout
      else if regex_test re_return_paren code then Generic
      else NoStrategy)"

definition fallback :: "stack \<Rightarrow> jsstring \<Rightarrow> jsstring" where
  "fallback stk code =
     (case fallback_strategy stk code of
        NextLayout \<Rightarrow> wrap_children code
      | Generic \<Rightarrow> wrap_generic code
      | NoStrategy \<Rightarrow> code)"

text \<open>Lines 126 to 159.\<close>

definition wrap_root :: "stack \<Rightarrow> jsstring \<Rightarrow> jsstring \<times> console" where
  "wrap_root stk code0 =
     (let before_wrap = code0;
          code = wrapJSXReturn code0 providerName
      in if code = before_wrap then (fallback stk code, [(WARN, FallbackWrapper)])
         else (code, []))"


section \<open>The run\<close>

text \<open>\<^verbatim>\<open>/\.(t|j)sx?$/\<close>, and the helpers \<open>rel\<close> and \<open>relNoExt\<close>.\<close>

definition re_ext :: regex where
  "re_ext = Seq (Chr 46) (Seq (Group 1 (Alt (Chr 116) (Chr 106))) (Seq (Chr 115) (Seq (Opt (Chr 120)) Eol)))"

definition rel :: "jsstring \<Rightarrow> jsstring" where
  "rel p = (if p = [] then ascii ''.'' else p)"

definition relNoExt :: "jsstring \<Rightarrow> jsstring" where
  "relNoExt p = regex_replace re_ext (rel p) (\<lambda>m. [])"

record outcome =
  exit_code :: nat
  files :: filesystem
  printed :: console

text \<open>
  Lines 69 to 173, once the root file is known: the error that stopped the steps, if
  any, the files as the steps left them, and what they printed.
\<close>

definition run_steps ::
  "(jsstring \<Rightarrow> jsstring option) \<Rightarrow> stack \<Rightarrow> jsstring \<Rightarrow> filesystem
     \<Rightarrow> error option \<times> filesystem \<times> console" where
  "run_steps pkgdir stk rootPath fs0 =
     (case mkdirSync_recursive fs0 targetDir of
        (Some e, fs1) \<Rightarrow> (Some e, fs1, [])
      | (None, fs1) \<Rightarrow>
          (case emit_template pkgdir stk (providerFile rootPath) fs1 of
             Inl e \<Rightarrow> (Some e, fs1, [])
           | Inr (fs2, out2) \<Rightarrow>
               (case readFileSync fs2 rootPath of
                  Inl e \<Rightarrow> (Some e, fs2, out2)
                | Inr code0 \<Rightarrow>
                    (case inject_import (importLine rootPath) code0 of
                       (code1, out3) \<Rightarrow>
                         (case wrap_root stk code1 of
                            (code2, out4) \<Rightarrow>
                              (case writeFileSync fs2 rootPath code2 of
                                 Inl e \<Rightarrow> (Some e, fs2, out2 @ out3 @ out4)
                               | Inr fs3 \<Rightarrow>
                                   (None, fs3,
                                    out2 @ out3 @ out4
                                    @ [(LOG, Updated (rel rootPath)), (LOG, Done),
                                       (LOG, UsageImport (relNoExt (providerFile rootPath))),
                                       (LOG, UsageHook),
                                       (LOG, UsageShow (stk = ReactNative))])))))))"

text \<open>
  The whole of \<open>run\<close>: \<open>process.exit(1)\<close> where no root file is found, the \<open>catch\<close>
  of line 174 around the steps, and the exit status 0 of a run that comes to its end.
\<close>

definition run ::
  "(jsstring \<Rightarrow> json option) \<Rightarrow> (jsstring \<Rightarrow> jsstring option) \<Rightarrow> filesystem \<Rightarrow> outcome" where
  "run parse pkgdir fs =
     (let stk = detect_stack parse fs;
          out0 = [(LOG, DetectingStack), (LOG, DetectedStack stk)]
      in case find_root fs of
           None \<Rightarrow> \<lparr>exit_code = 1, files = fs, printed = out0 @ [(ERR, NoRootFile)]\<rparr>
         | Some rootPath \<Rightarrow>
             (case run_steps pkgdir stk rootPath fs of
                (Some e, fs', out) \<Rightarrow>
                  \<lparr>exit_code = 1, files = fs',
                   printed = out0 @ [(LOG, RootFile (rel rootPath))] @ out @ [(ERR, Caught e)]\<rparr>
              | (None, fs', out) \<Rightarrow>
                  \<lparr>exit_code = 0, files = fs',
                   printed = out0 @ [(LOG, RootFile (rel rootPath))] @ out\<rparr>))"


section \<open>Auxiliary definitions\<close>

text \<open>
  Notions that the proofs use and the program does not have.  \<open>first_match\<close> is the
  state in which the matcher reports a match started in a given state.
\<close>

definition first_match :: "regex \<Rightarrow> mstate \<Rightarrow> mstate option" where
  "first_match r st = (case rmatch r st of [] \<Rightarrow> None | st' # sts \<Rightarrow> Some st')"

text \<open>
  What a match of \<^verbatim>\<open>return\s*\(\<close>, of \<^verbatim>\<open>return\s*\(\s*\<close> and of
  \<^verbatim>\<open>return\s*\(\s*<[^>]\<close> at the very start of a string leaves of it, and the first
  index from which a string has such a remainder.
\<close>

definition after_return_paren :: "jsstring \<Rightarrow> jsstring option" where
  "after_return_paren xs =
     (if starts_with xs (ascii ''return'') then
        (case dropWhile is_space (drop 6 xs) of
           [] \<Rightarrow> None
         | x # rest \<Rightarrow> if x = 40 then Some rest else None)
      else None)"

definition after_return_paren_spaces :: "jsstring \<Rightarrow> jsstring option" where
  "after_return_paren_spaces xs = map_option (dropWhile is_space) (after_return_paren xs)"

definition after_return_jsx :: "jsstring \<Rightarrow> jsstring option" where
  "after_return_jsx xs =
     (case after_return_paren_spaces xs of
        None \<Rightarrow> None
      | Some [] \<Rightarrow> None
      | Some [x] \<Rightarrow> None
      | Some (x # c # rest) \<Rightarrow> if x = 60 \<and> c \<noteq> 62 then Some rest else None)"

fun find_first :: "(jsstring \<Rightarrow> 'a option) \<Rightarrow> jsstring \<Rightarrow> nat \<Rightarrow> (nat \<times> 'a) option" where
  "find_first f [] i = map_option (Pair i) (f [])"
| "find_first f (x # xs) i =
     (case f (x # xs) of Some r \<Rightarrow> Some (i, r) | None \<Rightarrow> find_first f xs (Suc i))"

text \<open>The depth with which the loop of \<open>wrapJSXReturn\<close> leaves a text it reads to its end.\<close>

fun final_depth :: "jsstring \<Rightarrow> nat \<Rightarrow> nat" where
  "final_depth [] depth = depth"
| "final_depth (ch # rest) depth =
     (if ch = 40 then final_depth rest (depth + 1)
      else if ch = 41 then final_depth rest (depth - 1)
      else final_depth rest depth)"

text \<open>What lines 205 to 224 leave in \<open>start\<close> and \<open>endIdx\<close>, when both are found.\<close>

definition jsx_extent :: "jsstring \<Rightarrow> (nat \<times> nat) option" where
  "jsx_extent code =
     (case regex_exec re_return_jsx code of
        None \<Rightarrow> None
      | Some m \<Rightarrow>
          (let start = match_index m + length (match_text m) - 1 in
           case scan_close (drop start code) start 0 of
             None \<Rightarrow> None
           | Some endIdx \<Rightarrow> Some (start, endIdx)))"


section \<open>Inputs for the examples\<close>

text \<open>
  A manifest that names both frameworks, with the one result of \<open>JSON.parse\<close> the
  examples need; every other text is taken for invalid.
\<close>

definition manifest_both :: jsstring where
  "manifest_both =
     ascii ''{\"dependencies\":{\"react-native\":\"0.74\"},\"devDependencies\":{\"next\":\"14\"}}''"

definition parse_one :: "jsstring \<Rightarrow> json option" where
  "parse_one s =
     (if s = manifest_both then
        Some (JObject
          [(ascii ''dependencies'', JObject [(ascii ''react-native'', JString (ascii ''0.74''))]),
           (ascii ''devDependencies'', JObject [(ascii ''next'', JString (ascii ''14''))])])
      else None)"

definition templates :: "jsstring \<Rightarrow> jsstring option" where
  "templates =
     [ascii ''templates/provider.web.tsx'' \<mapsto> ascii ''// web provider'',
      ascii ''templates/provider.rn.tsx'' \<mapsto> ascii ''// native provider'']"

text \<open>
  A root file whose one import is quoted again in a comment below it:
  \<^verbatim>\<open>import React from "react";\<close>, then \<^verbatim>\<open>/* import React from "react"; */\<close>, then
  the component.
\<close>

definition root_with_comment :: jsstring where
  "root_with_comment =
     ascii ''import React from \"react\";\<newline>/* import React from \"react\"; */\<newline>export default function App() {}''"

section \<open>Evaluation\<close>

lemmas regex_eval = rmatch.simps regex_exec_def regex_test_def regex_replace_def
  match_index_def match_text_def match_rest_def capture_def spaces_def is_space_def
  is_line_terminator_def is_word_char_def canonicalize_def ascii_def

lemma next_not_inherited: "ascii ''next'' \<notin> set object_prototype_keys"
  by (simp add: object_prototype_keys_def ascii_def)

lemma react_native_not_inherited: "ascii ''react-native'' \<notin> set object_prototype_keys"
  by (simp add: object_prototype_keys_def ascii_def)

section \<open>C1: the extent that wrapJSXReturn wraps\<close>

text \<open>
  C1.  The claim has the text from the \<^verbatim>\<open><\<close> to the closing parenthesis wrapped.
  Line 208 takes \<open>m.index + m[0].length - 1\<close> for the position of the \<^verbatim>\<open><\<close>, as its
  comment says, but the match ends with the character after the \<^verbatim>\<open><\<close>, so that is
  the character \<open>start\<close> points at.  On the component below the opening tag is
  written behind the \<^verbatim>\<open><\<close> of the \<^verbatim>\<open>div\<close>, not before it.
\<close>

theorem wrapJSXReturn_start_after_lt:
  "wrapJSXReturn (ascii ''function App() { return (<div>hi</div>); }'') providerName =
     ascii ''function App() { return (<<NotificationsProvider>div>hi</div></NotificationsProvider>); }''"
  by (simp add: wrapJSXReturn_def re_return_jsx_def re_double_wrap_def slice_def open_tag_def
      close_tag_def providerName_def regex_eval)

section \<open>C5: the three stacks\<close>

text \<open>
  C5.  The stack is \<open>Next\<close> exactly when \<open>next\<close> is a key of the merged dependencies;
  otherwise \<open>ReactNative\<close> exactly when \<open>react-native\<close> is such a key or one of the
  three marker files exists; otherwise \<open>React\<close>.  So \<open>Next\<close> wins where both hold.
\<close>

theorem detect_stack_variants:
  "(detect_stack parse fs = Next \<longleftrightarrow> ascii ''next'' \<in> set (merged_deps parse fs)) \<and>
   (detect_stack parse fs = ReactNative \<longleftrightarrow>
      ascii ''next'' \<notin> set (merged_deps parse fs) \<and>
      (ascii ''react-native'' \<in> set (merged_deps parse fs)
       \<or> existsSync fs (ascii ''app.json'')
       \<or> existsSync fs (ascii ''expo.json'')
       \<or> existsSync fs (ascii ''expo.config.js''))) \<and>
   (detect_stack parse fs = React \<longleftrightarrow>
      ascii ''next'' \<notin> set (merged_deps parse fs) \<and>
      ascii ''react-native'' \<notin> set (merged_deps parse fs) \<and>
      \<not> existsSync fs (ascii ''app.json'') \<and>
      \<not> existsSync fs (ascii ''expo.json'') \<and>
      \<not> existsSync fs (ascii ''expo.config.js''))"
  using next_not_inherited react_native_not_inherited
  by (auto simp add: detect_stack_def js_in_def Let_def)

theorem detect_stack_variants_witness:
  "ascii ''next'' \<in> set (merged_deps parse_one [ascii ''package.json'' \<mapsto> File manifest_both]) \<and>
   ascii ''react-native'' \<in> set (merged_deps parse_one [ascii ''package.json'' \<mapsto> File manifest_both]) \<and>
   detect_stack parse_one [ascii ''package.json'' \<mapsto> File manifest_both] = Next"
  using detect_stack_variants[of parse_one "[ascii ''package.json'' \<mapsto> File manifest_both]"]
  by (simp add: merged_deps_def readJSONSafe_def readFileSync_def parse_one_def ascii_def)

section \<open>C10: a manifest that cannot be read\<close>

text \<open>
  C10.  Where \<open>package.json\<close> is missing, or is there and \<open>JSON.parse\<close> rejects it,
  \<open>readJSONSafe\<close> returns \<open>null\<close>, the merged dependencies are empty, and the stack
  is still found: never \<open>Next\<close>, and \<open>ReactNative\<close> exactly when a marker file exists.
\<close>

theorem unreadable_manifest:
  assumes "fs (ascii ''package.json'') = None
           \<or> (\<exists>content. fs (ascii ''package.json'') = Some (File content) \<and> parse content = None)"
  shows "readJSONSafe parse fs (ascii ''package.json'') = JNull
         \<and> merged_deps parse fs = []
         \<and> detect_stack parse fs \<noteq> Next
         \<and> detect_stack parse fs =
             (if existsSync fs (ascii ''app.json'') \<or> existsSync fs (ascii ''expo.json'')
                 \<or> existsSync fs (ascii ''expo.config.js'')
              then ReactNative else React)"
proof -
  from assms have null: "readJSONSafe parse fs (ascii ''package.json'') = JNull"
    by (auto simp add: readJSONSafe_def readFileSync_def)
  then have empty: "merged_deps parse fs = []"
    by (simp add: merged_deps_def)
  have "detect_stack parse fs =
          (if existsSync fs (ascii ''app.json'') \<or> existsSync fs (ascii ''expo.json'')
              \<or> existsSync fs (ascii ''expo.config.js'')
           then ReactNative else React)"
    using next_not_inherited react_native_not_inherited
    by (simp add: detect_stack_def empty js_in_def)
  with null empty show ?thesis by simp
qed

theorem unreadable_manifest_witness:
  "[ascii ''package.json'' \<mapsto> File (ascii ''{ \"dependencies\": ''), ascii ''app.json'' \<mapsto> File (ascii ''{}'')]
       (ascii ''package.json'') = Some (File (ascii ''{ \"dependencies\": ''))
   \<and> parse_one (ascii ''{ \"dependencies\": '') = None
   \<and> detect_stack parse_one
        [ascii ''package.json'' \<mapsto> File (ascii ''{ \"dependencies\": ''), ascii ''app.json'' \<mapsto> File (ascii ''{}'')]
       = ReactNative"
  using unreadable_manifest[of
      "[ascii ''package.json'' \<mapsto> File (ascii ''{ \"dependencies\": ''), ascii ''app.json'' \<mapsto> File (ascii ''{}'')]"
      parse_one]
  by (simp add: parse_one_def manifest_both_def existsSync_def ascii_def)

section \<open>C6: the root file\<close>

text \<open>
  C6.  The list has sixteen paths, from \<open>app/layout.tsx\<close> to \<open>src/index.jsx\<close>.  No root
  is found exactly when none of them exists; a root that is found is one of them,
  exists, and no path before it in the list exists.
\<close>

theorem find_root_first:
  "length candidates = 16 \<and> candidates ! 0 = ascii ''app/layout.tsx''
   \<and> candidates ! 15 = ascii ''src/index.jsx''
   \<and> (find_root fs = None \<longleftrightarrow> (\<forall>p \<in> set candidates. \<not> existsSync fs p))
   \<and> (\<forall>rootPath. find_root fs = Some rootPath \<longrightarrow>
         (\<exists>i < 16. rootPath = candidates ! i \<and> existsSync fs rootPath
                   \<and> (\<forall>j < i. \<not> existsSync fs (candidates ! j))))"
proof -
  have len: "length candidates = 16" by (simp add: candidates_def)
  have ends: "candidates ! 0 = ascii ''app/layout.tsx''" "candidates ! 15 = ascii ''src/index.jsx''"
    by (simp_all add: candidates_def)
  have none: "find_root fs = None \<longleftrightarrow> (\<forall>p \<in> set candidates. \<not> existsSync fs p)"
    by (auto simp add: find_root_def find_None_iff)
  have some: "\<exists>i < 16. rootPath = candidates ! i \<and> existsSync fs rootPath
                \<and> (\<forall>j < i. \<not> existsSync fs (candidates ! j))"
    if "find_root fs = Some rootPath" for rootPath
    using that len unfolding find_root_def find_Some_iff by metis
  from len ends none some show ?thesis by blast
qed

theorem find_root_first_witness:
  "find_root [ascii ''src/index.jsx'' \<mapsto> File [], ascii ''App.tsx'' \<mapsto> File []] = Some (ascii ''App.tsx'')
   \<and> (\<exists>i < 16. ascii ''App.tsx'' = candidates ! i
         \<and> existsSync [ascii ''src/index.jsx'' \<mapsto> File [], ascii ''App.tsx'' \<mapsto> File []] (ascii ''App.tsx'')
         \<and> (\<forall>j < i. \<not> existsSync [ascii ''src/index.jsx'' \<mapsto> File [], ascii ''App.tsx'' \<mapsto> File []]
                          (candidates ! j)))"
proof -
  have "find_root [ascii ''src/index.jsx'' \<mapsto> File [], ascii ''App.tsx'' \<mapsto> File []] = Some (ascii ''App.tsx'')"
    by (simp add: find_root_def candidates_def existsSync_def ascii_def)
  with find_root_first[of "[ascii ''src/index.jsx'' \<mapsto> File [], ascii ''App.tsx'' \<mapsto> File []]"]
  show ?thesis by blast
qed


section \<open>The steps of the run\<close>

lemma mkdir_target:
  "mkdirSync_recursive fs targetDir =
     (case fs (ascii ''src'') of
        Some (File c) \<Rightarrow> (Some (ENOTDIR (ascii ''src'')), fs)
      | _ \<Rightarrow> (case fs (ascii ''src/nim-react-toastify'') of
                Some (File c) \<Rightarrow> (Some (EEXIST (ascii ''src/nim-react-toastify'')), fs(ascii ''src'' \<mapsto> Directory))
              | _ \<Rightarrow> (None, fs(ascii ''src'' \<mapsto> Directory, ascii ''src/nim-react-toastify'' \<mapsto> Directory))))"
  by (auto simp add: mkdirSync_recursive_def targetDir_def segments_def ascii_def Let_def split: option.splits node.splits)


lemma providerFile_not_dir:
  "providerFile r \<noteq> ascii ''src''" "providerFile r \<noteq> ascii ''src/nim-react-toastify''"
  by (simp_all add: providerFile_def targetDir_def ascii_def)

lemma candidate_paths:
  assumes "r \<in> set candidates"
  shows "r \<noteq> ascii ''src''" "r \<noteq> ascii ''src/nim-react-toastify''" "providerFile r \<noteq> r"
  using assms
  by (auto simp add: candidates_def providerFile_def targetDir_def ascii_def)

lemma run_steps_error:
  "fst (run_steps pkgdir stk r fs) =
     (case mkdirSync_recursive fs targetDir of
        (Some e, fs1) \<Rightarrow> Some e
      | (None, fs1) \<Rightarrow>
          (case emit_template pkgdir stk (providerFile r) fs1 of
             Inl e \<Rightarrow> Some e
           | Inr (fs2, out2) \<Rightarrow>
               (case fs2 r of
                  None \<Rightarrow> Some (ENOENT r)
                | Some Directory \<Rightarrow> Some (EISDIR r)
                | Some (File code0) \<Rightarrow> None)))"
  by (simp add: run_steps_def split_beta readFileSync_def writeFileSync_def
      split: option.splits sum.splits node.splits)

lemma emit_template_cases:
  "emit_template pkgdir stk pfile fs =
     (if fs pfile \<noteq> None then Inr (fs, [(WARN, ProviderExists pfile)])
      else case pkgdir (template_path stk) of
             None \<Rightarrow> Inl (ENOENT (template_path stk))
           | Some t \<Rightarrow> Inr (fs(pfile \<mapsto> File t), [(LOG, Created pfile)]))"
  by (simp add: emit_template_def existsSync_def readTemplate_def writeFileSync_def
      template_path_def split: option.splits)

lemma run_steps_succeed:
  assumes "r \<in> set candidates"
  shows "fst (run_steps pkgdir stk r fs) = None \<longleftrightarrow>
           (\<forall>c. fs (ascii ''src'') \<noteq> Some (File c))
           \<and> (\<forall>c. fs (ascii ''src/nim-react-toastify'') \<noteq> Some (File c))
           \<and> (existsSync fs (providerFile r) \<or> pkgdir (template_path stk) \<noteq> None)
           \<and> (\<exists>c. fs r = Some (File c))"
  using candidate_paths[OF assms] providerFile_not_dir[of r]
  by (auto simp add: run_steps_error mkdir_target emit_template_cases existsSync_def
      split: option.splits node.splits)


lemma find_root_candidate: "find_root fs = Some r \<Longrightarrow> r \<in> set candidates"
  unfolding find_root_def find_Some_iff by (metis nth_mem)

lemma run_cases:
  "run parse pkgdir fs =
     (case find_root fs of
        None \<Rightarrow>
          \<lparr>exit_code = 1, files = fs,
           printed = [(LOG, DetectingStack), (LOG, DetectedStack (detect_stack parse fs)),
                      (ERR, NoRootFile)]\<rparr>
      | Some r \<Rightarrow>
          (case run_steps pkgdir (detect_stack parse fs) r fs of
             (Some e, fs', out) \<Rightarrow>
               \<lparr>exit_code = 1, files = fs',
                printed = [(LOG, DetectingStack), (LOG, DetectedStack (detect_stack parse fs)),
                           (LOG, RootFile (rel r))] @ out @ [(ERR, Caught e)]\<rparr>
           | (None, fs', out) \<Rightarrow>
               \<lparr>exit_code = 0, files = fs',
                printed = [(LOG, DetectingStack), (LOG, DetectedStack (detect_stack parse fs)),
                           (LOG, RootFile (rel r))] @ out\<rparr>))"
  by (simp add: run_def Let_def split: option.splits prod.splits)

section \<open>C7: the exit status\<close>

text \<open>
  C7.  Where none of the candidates exists, the run prints the error, ends with status 1
  and leaves every file as it was.  An error raised by a later step is caught: it is
  printed last and the status is 1.  The status is 0 or 1, and it is 0 exactly when a
  root is found, no file stands where the target directory goes, the provider file
  exists or its template can be read, and the root is a file that can be read.
\<close>

theorem run_exit_status:
  "((\<forall>p \<in> set candidates. \<not> existsSync fs p) \<longrightarrow>
      run parse pkgdir fs =
        \<lparr>exit_code = 1, files = fs,
         printed = [(LOG, DetectingStack), (LOG, DetectedStack (detect_stack parse fs)),
                    (ERR, NoRootFile)]\<rparr>)
   \<and> (\<forall>r e. find_root fs = Some r \<longrightarrow>
          fst (run_steps pkgdir (detect_stack parse fs) r fs) = Some e \<longrightarrow>
          exit_code (run parse pkgdir fs) = 1
          \<and> last (printed (run parse pkgdir fs)) = (ERR, Caught e))
   \<and> (exit_code (run parse pkgdir fs) = 0
        \<or> exit_code (run parse pkgdir fs) = 1
          \<and> (\<exists>m. last (printed (run parse pkgdir fs)) = (ERR, m)))
   \<and> (exit_code (run parse pkgdir fs) = 0 \<longleftrightarrow>
        (\<exists>r. find_root fs = Some r
           \<and> (\<forall>c. fs (ascii ''src'') \<noteq> Some (File c))
           \<and> (\<forall>c. fs (ascii ''src/nim-react-toastify'') \<noteq> Some (File c))
           \<and> (existsSync fs (providerFile r)
                \<or> pkgdir (template_path (detect_stack parse fs)) \<noteq> None)
           \<and> (\<exists>c. fs r = Some (File c))))"
proof -
  have c1: "(\<forall>p \<in> set candidates. \<not> existsSync fs p) \<longrightarrow>
      run parse pkgdir fs =
        \<lparr>exit_code = 1, files = fs,
         printed = [(LOG, DetectingStack), (LOG, DetectedStack (detect_stack parse fs)),
                    (ERR, NoRootFile)]\<rparr>"
  proof
    assume "\<forall>p \<in> set candidates. \<not> existsSync fs p"
    then have "find_root fs = None" by (simp add: find_root_def find_None_iff)
    then show "run parse pkgdir fs =
        \<lparr>exit_code = 1, files = fs,
         printed = [(LOG, DetectingStack), (LOG, DetectedStack (detect_stack parse fs)),
                    (ERR, NoRootFile)]\<rparr>"
      by (simp add: run_cases)
  qed
  have c2: "\<forall>r e. find_root fs = Some r \<longrightarrow>
          fst (run_steps pkgdir (detect_stack parse fs) r fs) = Some e \<longrightarrow>
          exit_code (run parse pkgdir fs) = 1
          \<and> last (printed (run parse pkgdir fs)) = (ERR, Caught e)"
  proof (intro allI impI)
    fix r e
    assume "find_root fs = Some r" "fst (run_steps pkgdir (detect_stack parse fs) r fs) = Some e"
    then show "exit_code (run parse pkgdir fs) = 1
          \<and> last (printed (run parse pkgdir fs)) = (ERR, Caught e)"
      by (cases "run_steps pkgdir (detect_stack parse fs) r fs") (simp add: run_cases)
  qed
  have c3: "exit_code (run parse pkgdir fs) = 0
        \<or> exit_code (run parse pkgdir fs) = 1
          \<and> (\<exists>m. last (printed (run parse pkgdir fs)) = (ERR, m))"
    by (simp add: run_cases split: option.splits prod.splits)
  have zero: "exit_code (run parse pkgdir fs) = 0 \<longleftrightarrow>
        (\<exists>r. find_root fs = Some r
           \<and> fst (run_steps pkgdir (detect_stack parse fs) r fs) = None)"
    by (auto simp add: run_cases split: option.splits prod.splits)
  have c4: "exit_code (run parse pkgdir fs) = 0 \<longleftrightarrow>
        (\<exists>r. find_root fs = Some r
           \<and> (\<forall>c. fs (ascii ''src'') \<noteq> Some (File c))
           \<and> (\<forall>c. fs (ascii ''src/nim-react-toastify'') \<noteq> Some (File c))
           \<and> (existsSync fs (providerFile r)
                \<or> pkgdir (template_path (detect_stack parse fs)) \<noteq> None)
           \<and> (\<exists>c. fs r = Some (File c)))"
  proof
    assume "exit_code (run parse pkgdir fs) = 0"
    with zero obtain r where r: "find_root fs = Some r"
      "fst (run_steps pkgdir (detect_stack parse fs) r fs) = None" by blast
    from r(2) run_steps_succeed[OF find_root_candidate[OF r(1)], of pkgdir "detect_stack parse fs" fs]
    have "(\<forall>c. fs (ascii ''src'') \<noteq> Some (File c))
           \<and> (\<forall>c. fs (ascii ''src/nim-react-toastify'') \<noteq> Some (File c))
           \<and> (existsSync fs (providerFile r)
                \<or> pkgdir (template_path (detect_stack parse fs)) \<noteq> None)
           \<and> (\<exists>c. fs r = Some (File c))" by simp
    with r(1) show "\<exists>r. find_root fs = Some r
           \<and> (\<forall>c. fs (ascii ''src'') \<noteq> Some (File c))
           \<and> (\<forall>c. fs (ascii ''src/nim-react-toastify'') \<noteq> Some (File c))
           \<and> (existsSync fs (providerFile r)
                \<or> pkgdir (template_path (detect_stack parse fs)) \<noteq> None)
           \<and> (\<exists>c. fs r = Some (File c))" by (intro exI[of _ r]) simp
  next
    assume "\<exists>r. find_root fs = Some r
           \<and> (\<forall>c. fs (ascii ''src'') \<noteq> Some (File c))
           \<and> (\<forall>c. fs (ascii ''src/nim-react-toastify'') \<noteq> Some (File c))
           \<and> (existsSync fs (providerFile r)
                \<or> pkgdir (template_path (detect_stack parse fs)) \<noteq> None)
           \<and> (\<exists>c. fs r = Some (File c))"
    then obtain r where r: "find_root fs = Some r"
      and ok: "(\<forall>c. fs (ascii ''src'') \<noteq> Some (File c))
           \<and> (\<forall>c. fs (ascii ''src/nim-react-toastify'') \<noteq> Some (File c))
           \<and> (existsSync fs (providerFile r)
                \<or> pkgdir (template_path (detect_stack parse fs)) \<noteq> None)
           \<and> (\<exists>c. fs r = Some (File c))" by blast
    from ok run_steps_succeed[OF find_root_candidate[OF r], of pkgdir "detect_stack parse fs" fs]
    have "fst (run_steps pkgdir (detect_stack parse fs) r fs) = None" by simp
    with r zero show "exit_code (run parse pkgdir fs) = 0" by blast
  qed
  show ?thesis by (rule conjI[OF c1 conjI[OF c2 conjI[OF c3 c4]]])
qed

theorem run_exit_status_witness:
  "find_root Map.empty = None
   \<and> run parse_one templates Map.empty =
       \<lparr>exit_code = 1, files = Map.empty,
        printed = [(LOG, DetectingStack), (LOG, DetectedStack React), (ERR, NoRootFile)]\<rparr>
   \<and> find_root [ascii ''App.tsx'' \<mapsto> Directory] = Some (ascii ''App.tsx'')
   \<and> exit_code (run parse_one templates [ascii ''App.tsx'' \<mapsto> Directory]) = 1
   \<and> last (printed (run parse_one templates [ascii ''App.tsx'' \<mapsto> Directory]))
       = (ERR, Caught (EISDIR (ascii ''App.tsx'')))"
proof -
  have a: "\<forall>p \<in> set candidates. \<not> existsSync Map.empty p" by (simp add: existsSync_def)
  then have a': "find_root Map.empty = None" by (simp add: find_root_def find_None_iff)
  have b: "detect_stack parse_one Map.empty = React"
    using next_not_inherited react_native_not_inherited
    by (simp add: detect_stack_def merged_deps_def readJSONSafe_def readFileSync_def js_in_def
        existsSync_def)
  have c: "find_root [ascii ''App.tsx'' \<mapsto> Directory] = Some (ascii ''App.tsx'')"
    by (simp add: find_root_def candidates_def existsSync_def ascii_def)
  have d: "fst (run_steps templates (detect_stack parse_one [ascii ''App.tsx'' \<mapsto> Directory])
                 (ascii ''App.tsx'') [ascii ''App.tsx'' \<mapsto> Directory])
           = Some (EISDIR (ascii ''App.tsx''))"
    by (simp add: run_steps_def mkdirSync_recursive_def targetDir_def segments_def
        emit_template_def existsSync_def readTemplate_def writeFileSync_def readFileSync_def
        templates_def providerFile_def providerName_def re_ts_def regex_eval)
  from run_exit_status[of Map.empty parse_one templates] a b
  have "run parse_one templates Map.empty =
       \<lparr>exit_code = 1, files = Map.empty,
        printed = [(LOG, DetectingStack), (LOG, DetectedStack React), (ERR, NoRootFile)]\<rparr>"
    by simp
  moreover from run_exit_status[of "[ascii ''App.tsx'' \<mapsto> Directory]" parse_one templates] c d
  have "exit_code (run parse_one templates [ascii ''App.tsx'' \<mapsto> Directory]) = 1
   \<and> last (printed (run parse_one templates [ascii ''App.tsx'' \<mapsto> Directory]))
       = (ERR, Caught (EISDIR (ascii ''App.tsx'')))"
    by blast
  ultimately show ?thesis using a' c by simp
qed

section \<open>C8: the provider template\<close>

text \<open>
  C8.  Where something exists at the provider path, the step that emits the template
  returns the files as they were.  Where nothing exists there and the templates can be
  read, it writes the native template for the stack \<open>ReactNative\<close> and the web
  template for the two others, and changes no other path.  The provider path is
  \<open>src/nim-react-toastify/NotificationsProvider\<close> with the extension \<open>tsx\<close> for a
  root that ends in \<open>.ts\<close> or \<open>.tsx\<close>, and \<open>jsx\<close> otherwise.
\<close>

theorem emit_template_frame:
  "(existsSync fs pfile \<longrightarrow>
      emit_template pkgdir stk pfile fs = Inr (fs, [(WARN, ProviderExists pfile)]))
   \<and> (\<not> existsSync fs pfile \<longrightarrow>
        pkgdir (ascii ''templates/provider.rn.tsx'') = Some native \<longrightarrow>
        pkgdir (ascii ''templates/provider.web.tsx'') = Some web \<longrightarrow>
        emit_template pkgdir stk pfile fs =
          Inr (fs(pfile \<mapsto> File (if stk = ReactNative then native else web)),
               [(LOG, Created pfile)]))
   \<and> providerFile rootPath =
        ascii ''src/nim-react-toastify/NotificationsProvider.''
        @ (if regex_test re_ts rootPath then ascii ''tsx'' else ascii ''jsx'')"
  by (simp add: emit_template_def existsSync_def readTemplate_def writeFileSync_def
      providerFile_def targetDir_def providerName_def ascii_def)

theorem emit_template_frame_witness:
  "existsSync [providerFile (ascii ''App.tsx'') \<mapsto> File (ascii ''// mine'')] (providerFile (ascii ''App.tsx''))
   \<and> emit_template templates ReactNative (providerFile (ascii ''App.tsx''))
        [providerFile (ascii ''App.tsx'') \<mapsto> File (ascii ''// mine'')]
       = Inr ([providerFile (ascii ''App.tsx'') \<mapsto> File (ascii ''// mine'')],
              [(WARN, ProviderExists (providerFile (ascii ''App.tsx'')))])
   \<and> \<not> existsSync Map.empty (providerFile (ascii ''App.tsx''))
   \<and> emit_template templates ReactNative (providerFile (ascii ''App.tsx'')) Map.empty
       = Inr ([providerFile (ascii ''App.tsx'') \<mapsto> File (ascii ''// native provider'')],
              [(LOG, Created (providerFile (ascii ''App.tsx'')))])
   \<and> emit_template templates Next (providerFile (ascii ''App.tsx'')) Map.empty
       = Inr ([providerFile (ascii ''App.tsx'') \<mapsto> File (ascii ''// web provider'')],
              [(LOG, Created (providerFile (ascii ''App.tsx'')))])"
proof -
  have t: "templates (ascii ''templates/provider.rn.tsx'') = Some (ascii ''// native provider'')"
    "templates (ascii ''templates/provider.web.tsx'') = Some (ascii ''// web provider'')"
    by (simp_all add: templates_def ascii_def)
  have e: "existsSync [providerFile (ascii ''App.tsx'') \<mapsto> File (ascii ''// mine'')] (providerFile (ascii ''App.tsx''))"
    "\<not> existsSync Map.empty (providerFile (ascii ''App.tsx''))"
    by (simp_all add: existsSync_def)
  from emit_template_frame[of "[providerFile (ascii ''App.tsx'') \<mapsto> File (ascii ''// mine'')]"
      "providerFile (ascii ''App.tsx'')" templates ReactNative] e(1)
  have 1: "emit_template templates ReactNative (providerFile (ascii ''App.tsx''))
        [providerFile (ascii ''App.tsx'') \<mapsto> File (ascii ''// mine'')]
       = Inr ([providerFile (ascii ''App.tsx'') \<mapsto> File (ascii ''// mine'')],
              [(WARN, ProviderExists (providerFile (ascii ''App.tsx'')))])"
    by blast
  from emit_template_frame[of Map.empty "providerFile (ascii ''App.tsx'')" templates ReactNative
      "ascii ''// native provider''" "ascii ''// web provider''", THEN conjunct2, THEN conjunct1] e(2) t
  have 2: "emit_template templates ReactNative (providerFile (ascii ''App.tsx'')) Map.empty
       = Inr ([providerFile (ascii ''App.tsx'') \<mapsto> File (ascii ''// native provider'')],
              [(LOG, Created (providerFile (ascii ''App.tsx'')))])"
    by simp
  from emit_template_frame[of Map.empty "providerFile (ascii ''App.tsx'')" templates Next
      "ascii ''// native provider''" "ascii ''// web provider''", THEN conjunct2, THEN conjunct1] e(2) t
  have 3: "emit_template templates Next (providerFile (ascii ''App.tsx'')) Map.empty
       = Inr ([providerFile (ascii ''App.tsx'') \<mapsto> File (ascii ''// web provider'')],
              [(LOG, Created (providerFile (ascii ''App.tsx'')))])"
    by simp
  from e 1 2 3 show ?thesis by simp
qed


section \<open>C4: where the import goes\<close>

lemma importLine_src_App:
  "importLine (ascii ''src/App.tsx'') =
     ascii ''import { NotificationsProvider } from \"nim-react-toastify/NotificationsProvider\";''"
  by (simp add: importLine_def posixPath_def path_relative_def path_dirname_def segments_def
      providerFile_def targetDir_def providerName_def re_ts_def re_js_def re_dotdot_def regex_eval)

lemma root_with_comment_imports:
  "match_all re_import_stmt [] root_with_comment = [ascii ''import React from \"react\";'']"
  by (simp add: root_with_comment_def match_all.simps re_import_stmt_def regex_eval)

lemma root_with_comment_no_provider:
  "\<not> str_includes root_with_comment
       (ascii ''import { NotificationsProvider } from \"nim-react-toastify/NotificationsProvider\";'')"
  "\<not> regex_test re_import_provider root_with_comment"
  by (simp_all add: root_with_comment_def str_includes_def indexOf_def re_import_provider_def
      providerName_def regex_eval)

lemma root_with_comment_last:
  "lastIndexOf root_with_comment (ascii ''import React from \"react\";'') = Some 30"
  by (simp add: root_with_comment_def lastIndexOf_def ascii_def)

text \<open>
  C4.  The claim has the import line put after the last line that matches the import
  pattern.  Line 115 looks for the text of the last match with \<open>lastIndexOf\<close>
  instead of taking the position of the match, so a later copy of that text is taken
  for it.  In the root file below the only import is on the first line, and its text
  comes again in the comment on the second line: the import line is written into the
  comment, not after the first line.
\<close>

theorem inject_import_into_comment:
  "fst (inject_import (importLine (ascii ''src/App.tsx'')) root_with_comment) =
     ascii ''import React from \"react\";\<newline>/* import React from \"react\";\<newline>import { NotificationsProvider } from \"nim-react-toastify/NotificationsProvider\";\<newline> */\<newline>export default function App() {}''"
  by (simp add: importLine_src_App inject_import_def root_with_comment_imports
        root_with_comment_no_provider root_with_comment_last Let_def slice_def)
     (simp add: root_with_comment_def ascii_def)

section \<open>The patterns of the program\<close>

lemma rmatch_Chr:
  "rmatch (Seq (Chr c) r) (b, xs, cs) =
     (case xs of [] \<Rightarrow> [] | x # xs' \<Rightarrow> if x = c then rmatch r (x # b, xs', cs) else [])"
  by (cases xs) (simp_all add: rmatch.simps)

lemma rmatch_lit:
  "rmatch (lit s r) (b, xs, cs) =
     (if starts_with xs s then rmatch r (rev s @ b, drop (length s) xs, cs) else [])"
proof (induction s arbitrary: b xs)
  case Nil
  then show ?case by simp
next
  case (Cons c s)
  show ?case
  proof (cases xs)
    case Nil
    then show ?thesis by (simp add: rmatch.simps)
  next
    case (Cons x xs')
    with Cons.IH[of "x # b" xs'] show ?thesis by (auto simp add: rmatch.simps)
  qed
qed

lemma rmatch_spaces_Cons:
  "rmatch spaces (b, x # xs, cs) =
     (if is_space x then rmatch spaces (x # b, xs, cs) @ [(b, x # xs, cs)] else [(b, x # xs, cs)])"
  by (simp add: spaces_def rmatch.simps(8)[of "Cls is_space" b "x # xs" cs] rmatch.simps(5))

lemma rmatch_spaces_Nil: "rmatch spaces (b, [], cs) = [(b, [], cs)]"
  by (simp add: spaces_def rmatch.simps(8)[of "Cls is_space" b "[]" cs] rmatch.simps(4))

text \<open>A pattern that cannot start with white space comes after all of it.\<close>

lemma rmatch_spaces_then:
  assumes "\<And>b x xs cs. is_space x \<Longrightarrow> rmatch r (b, x # xs, cs) = []"
  shows "rmatch (Seq spaces r) (b, xs, cs) =
           rmatch r (rev (takeWhile is_space xs) @ b, dropWhile is_space xs, cs)"
proof (induction xs arbitrary: b)
  case Nil
  then show ?case by (simp add: rmatch_Seq rmatch_spaces_Nil)
next
  case (Cons x xs)
  show ?case
  proof (cases "is_space x")
    case True
    have "rmatch (Seq spaces r) (b, x # xs, cs) =
            rmatch (Seq spaces r) (x # b, xs, cs) @ rmatch r (b, x # xs, cs)"
      by (simp add: rmatch_Seq rmatch_spaces_Cons True)
    with Cons.IH[of "x # b"] assms[OF True] True show ?thesis by simp
  next
    case False
    then show ?thesis by (simp add: rmatch_Seq rmatch_spaces_Cons)
  qed
qed

lemma first_match_spaces:
  "first_match spaces (b, xs, cs) = Some (rev (takeWhile is_space xs) @ b, dropWhile is_space xs, cs)"
proof (induction xs arbitrary: b)
  case Nil
  then show ?case by (simp add: first_match_def rmatch_spaces_Nil)
next
  case (Cons x xs)
  from Cons.IH[of "x # b"] show ?case
    by (auto simp add: first_match_def rmatch_spaces_Cons split: list.splits)
qed


lemma not_space: "\<not> is_space 40" "\<not> is_space 60" "\<not> is_space 114"
  by (simp_all add: is_space_def)

lemma rmatch_spaces_paren:
  "rmatch (Seq spaces (Seq (Chr 40) r)) (b, xs, cs) =
     (case dropWhile is_space xs of
        [] \<Rightarrow> []
      | x # rest \<Rightarrow> if x = 40 then rmatch r (40 # rev (takeWhile is_space xs) @ b, rest, cs) else [])"
proof -
  have "rmatch (Seq (Chr 40) r) (b, x # xs, cs) = []" if "is_space x" for b x xs cs
    using that not_space by (auto simp add: rmatch_Chr)
  then have "rmatch (Seq spaces (Seq (Chr 40) r)) (b, xs, cs) =
      rmatch (Seq (Chr 40) r) (rev (takeWhile is_space xs) @ b, dropWhile is_space xs, cs)"
    by (rule rmatch_spaces_then)
  then show ?thesis
    by (cases "dropWhile is_space xs") (simp_all add: rmatch_Chr del: dropWhile_eq_Nil_conv)
qed

lemma rmatch_spaces_paren_end:
  "rmatch (Seq spaces (Chr 40)) (b, xs, cs) =
     (case dropWhile is_space xs of
        [] \<Rightarrow> []
      | x # rest \<Rightarrow> if x = 40 then [(40 # rev (takeWhile is_space xs) @ b, rest, cs)] else [])"
proof -
  have "rmatch (Chr 40) (b, x # xs, cs) = []" if "is_space x" for b x xs cs
    using that not_space by (auto simp add: rmatch.simps)
  then have "rmatch (Seq spaces (Chr 40)) (b, xs, cs) =
      rmatch (Chr 40) (rev (takeWhile is_space xs) @ b, dropWhile is_space xs, cs)"
    by (rule rmatch_spaces_then)
  then show ?thesis
    by (cases "dropWhile is_space xs") (simp_all add: rmatch.simps del: dropWhile_eq_Nil_conv)
qed

lemma return_length: "length (ascii ''return'') = 6"
  by (simp add: ascii_def)

lemma first_match_return_paren:
  "map_option (\<lambda>st. fst (snd st)) (first_match re_return_paren (b, xs, cs)) = after_return_paren xs"
  by (cases "dropWhile is_space (drop 6 xs)")
     (simp_all add: first_match_def re_return_paren_def rmatch_lit rmatch_spaces_paren_end
      after_return_paren_def return_length del: dropWhile_eq_Nil_conv)

lemma first_match_return_paren_spaces:
  "map_option (\<lambda>st. fst (snd st)) (first_match re_return_paren_spaces (b, xs, cs)) =
     after_return_paren_spaces xs"
proof -
  have eq: "first_match re_return_paren_spaces (b, xs, cs) =
     (if starts_with xs (ascii ''return'') then
        (case dropWhile is_space (drop 6 xs) of
           [] \<Rightarrow> None
         | x # rest \<Rightarrow>
             if x = 40
             then first_match spaces
                    (40 # rev (takeWhile is_space (drop 6 xs)) @ rev (ascii ''return'') @ b, rest, cs)
             else None)
      else None)"
    by (cases "dropWhile is_space (drop 6 xs)")
       (simp_all add: first_match_def re_return_paren_spaces_def rmatch_lit rmatch_spaces_paren
         return_length del: dropWhile_eq_Nil_conv)
  show ?thesis
    unfolding eq
    by (cases "dropWhile is_space (drop 6 xs)")
       (simp_all add: first_match_spaces after_return_paren_spaces_def after_return_paren_def
         del: dropWhile_eq_Nil_conv)
qed

lemma rmatch_jsx_tail:
  "rmatch (Seq spaces (Seq (Chr 60) (Cls (\<lambda>c. c \<noteq> 62)))) (b, xs, cs) =
     (case dropWhile is_space xs of
        x # c # rest \<Rightarrow>
          if x = 60 \<and> c \<noteq> 62 then [(c # 60 # rev (takeWhile is_space xs) @ b, rest, cs)] else []
      | _ \<Rightarrow> [])"
proof -
  have "rmatch (Seq (Chr 60) r) (b, x # xs, cs) = []" if "is_space x" for r b x xs cs
    using that not_space by (auto simp add: rmatch_Chr)
  then have "rmatch (Seq spaces (Seq (Chr 60) (Cls (\<lambda>c. c \<noteq> 62)))) (b, xs, cs) =
      rmatch (Seq (Chr 60) (Cls (\<lambda>c. c \<noteq> 62)))
        (rev (takeWhile is_space xs) @ b, dropWhile is_space xs, cs)"
    by (rule rmatch_spaces_then)
  then show ?thesis
    by (cases "dropWhile is_space xs"; cases "tl (dropWhile is_space xs)")
       (simp_all add: rmatch_Chr rmatch.simps(4,5) del: dropWhile_eq_Nil_conv)
qed

lemma first_match_return_jsx:
  "map_option (\<lambda>st. fst (snd st)) (first_match re_return_jsx (b, xs, cs)) = after_return_jsx xs"
proof (cases "dropWhile is_space (drop 6 xs)")
  case Nil
  then show ?thesis
    by (simp add: first_match_def re_return_jsx_def rmatch_lit rmatch_spaces_paren
      after_return_jsx_def after_return_paren_spaces_def after_return_paren_def return_length
      del: dropWhile_eq_Nil_conv)
next
  case (Cons x rest)
  then show ?thesis
    by (cases "dropWhile is_space rest"; cases "tl (dropWhile is_space rest)")
       (simp_all add: first_match_def re_return_jsx_def rmatch_lit rmatch_spaces_paren
         rmatch_jsx_tail
         after_return_jsx_def after_return_paren_spaces_def after_return_paren_def return_length
         del: dropWhile_eq_Nil_conv)
qed


lemma regex_search_find_first:
  assumes "\<And>b xs. map_option (\<lambda>st. fst (snd st)) (first_match r (b, xs, [])) = f xs"
  shows "map_option (\<lambda>m. (fst m, fst (snd (snd m)))) (regex_search r b xs) = find_first f xs (length b)"
proof (induction xs arbitrary: b)
  case Nil
  have "f [] = map_option (\<lambda>st. fst (snd st)) (first_match r (b, [], []))"
    using assms by simp
  then show ?case
    by (cases "rmatch r (b, [], [])") (simp_all add: first_match_def)
next
  case (Cons x xs)
  have "f (x # xs) = map_option (\<lambda>st. fst (snd st)) (first_match r (b, x # xs, []))"
    using assms by simp
  with Cons.IH[of "x # b"] show ?case
    by (cases "rmatch r (b, x # xs, [])") (simp_all add: first_match_def)
qed

lemma find_first_Some:
  "find_first f xs k = Some (i, r) \<longleftrightarrow>
     k \<le> i \<and> i - k \<le> length xs \<and> f (drop (i - k) xs) = Some r \<and> (\<forall>j < i - k. f (drop j xs) = None)"
proof (induction xs arbitrary: k)
  case Nil
  then show ?case by auto
next
  case (Cons x xs)
  show ?case
  proof (cases "f (x # xs)")
    case (Some r')
    show ?thesis
    proof (cases "i = k")
      case True
      with Some show ?thesis by auto
    next
      case False
      have "\<not> (k \<le> i \<and> (\<forall>j < i - k. f (drop j (x # xs)) = None))"
      proof
        assume a: "k \<le> i \<and> (\<forall>j < i - k. f (drop j (x # xs)) = None)"
        with False have "0 < i - k" by simp
        with a have "f (drop 0 (x # xs)) = None" by blast
        with Some show False by simp
      qed
      with Some False show ?thesis by auto
    qed
  next
    case None
    show ?thesis
    proof (cases "i - k")
      case 0
      with None Cons.IH[of "Suc k"] show ?thesis by auto
    next
      case (Suc n)
      then have n: "i - Suc k = n" "k \<le> i" "Suc k \<le> i" by simp_all
      have d: "drop (i - k) (x # xs) = drop n xs" using Suc by simp
      have "(\<forall>j < i - k. f (drop j (x # xs)) = None) \<longleftrightarrow> (\<forall>j < n. f (drop j xs) = None)"
        using None Suc by (simp add: All_less_Suc2)
      with Cons.IH[of "Suc k"] None n d Suc show ?thesis by simp
    qed
  qed
qed

lemma regex_search_index:
  "regex_search r b xs = Some (i, st') \<Longrightarrow> i \<le> length (fst st')"
proof (induction xs arbitrary: b)
  case Nil
  then obtain sts where "rmatch r (b, [], []) = st' # sts" "i = length b"
    by (auto split: list.splits)
  with rmatch_hd_input[of r "(b, [], [])" st' sts] show ?case
    by (metis append_Nil2 fst_conv length_rev list.size(3) le_zero_eq length_0_conv order_refl snd_conv)
next
  case (Cons x xs)
  show ?case
  proof (cases "rmatch r (b, x # xs, [])")
    case Nil
    with Cons.prems have "regex_search r (x # b) xs = Some (i, st')" by simp
    from Cons.IH[OF this] show ?thesis .
  next
    case (Cons st sts)
    with Cons.prems have i: "i = length b" "st' = st" by simp_all
    from rmatch_hd_input[OF Cons] have "rev (fst st) @ fst (snd st) = rev b @ x # xs"
      "length (fst (snd st)) \<le> length (x # xs)" by simp_all
    then have "length (fst st) + length (fst (snd st)) = length b + length (x # xs)"
      by (metis length_append length_rev)
    with \<open>length (fst (snd st)) \<le> length (x # xs)\<close> i show ?thesis by simp
  qed
qed

lemma regex_exec_parts:
  assumes "regex_exec r s = Some m"
  shows "match_index m \<le> length s - length (match_rest m)"
    and "length (match_rest m) \<le> length s"
    and "match_text m = drop (match_index m) (take (length s - length (match_rest m)) s)"
    and "match_rest m = drop (length s - length (match_rest m)) s"
    and "match_index m + length (match_text m) = length s - length (match_rest m)"
proof -
  obtain i b' xs' cs' where m: "m = (i, b', xs', cs')" by (cases m) auto
  from assms m regex_search_input[of r "[]" s i "(b', xs', cs')"]
  have eq: "rev b' @ xs' = s" and le: "length xs' \<le> length s"
    by (simp_all add: regex_exec_def)
  from assms m regex_search_index[of r "[]" s i "(b', xs', cs')"]
  have i: "i \<le> length b'" by (simp add: regex_exec_def)
  from eq have len: "length b' = length s - length xs'"
    by (metis add_diff_cancel_right' length_append length_rev)
  from eq len have b': "rev b' = take (length s - length xs') s"
    by (metis append_eq_conv_conj length_rev)
  show "match_index m \<le> length s - length (match_rest m)"
    using i len m by (simp add: match_index_def match_rest_def)
  show "length (match_rest m) \<le> length s"
    using le m by (simp add: match_rest_def)
  have "match_text m = rev (take (length b' - i) b')"
    by (simp add: m match_text_def)
  also have "\<dots> = drop (length b' - (length b' - i)) (rev b')"
    by (simp add: rev_take)
  also have "length b' - (length b' - i) = i"
    using i by simp
  finally have "match_text m = drop i (rev b')" .
  then show t: "match_text m = drop (match_index m) (take (length s - length (match_rest m)) s)"
    using b' m by (simp add: match_index_def match_rest_def)
  show "match_rest m = drop (length s - length (match_rest m)) s"
    using m eq len by (metis append_eq_conv_conj length_rev match_rest_def fst_conv snd_conv)
  show "match_index m + length (match_text m) = length s - length (match_rest m)"
    unfolding t using i len m le by (simp add: match_index_def match_rest_def)
qed


lemma return_codes: "ascii ''return'' = [114, 101, 116, 117, 114, 110]"
  by (simp add: ascii_def)

lemma starts_with_append: "starts_with (s @ t) s"
  by (induction s) simp_all

lemma starts_with_split: "starts_with xs s \<Longrightarrow> xs = s @ drop (length s) xs"
  by (induction xs s rule: starts_with.induct) simp_all

lemma starts_with_iff: "starts_with xs s \<longleftrightarrow> (\<exists>t. xs = s @ t)"
  using starts_with_append starts_with_split by metis

lemma dropWhile_spaces:
  assumes "\<forall>x \<in> set w. is_space x" and "rest = [] \<or> \<not> is_space (hd rest)"
  shows "dropWhile is_space (w @ rest) = rest"
proof -
  from assms(2) have "dropWhile is_space rest = rest" by (cases rest) auto
  with assms(1) show ?thesis by (simp add: dropWhile_append)
qed

lemma after_return_paren_iff:
  "after_return_paren xs = Some rest \<longleftrightarrow>
     (\<exists>w. xs = ascii ''return'' @ w @ 40 # rest \<and> (\<forall>x \<in> set w. is_space x))"
proof
  assume a: "after_return_paren xs = Some rest"
  then have s: "starts_with xs (ascii ''return'')"
    by (simp add: after_return_paren_def split: if_splits)
  with a have d: "dropWhile is_space (drop 6 xs) = 40 # rest"
    by (simp add: after_return_paren_def split: list.splits if_splits)
  have "drop 6 xs = takeWhile is_space (drop 6 xs) @ dropWhile is_space (drop 6 xs)" by simp
  with d have "drop 6 xs = takeWhile is_space (drop 6 xs) @ 40 # rest" by simp
  with starts_with_split[OF s] have "xs = ascii ''return'' @ takeWhile is_space (drop 6 xs) @ 40 # rest"
    by (simp add: return_length)
  moreover have "\<forall>x \<in> set (takeWhile is_space (drop 6 xs)). is_space x"
    by (auto dest: set_takeWhileD)
  ultimately show "\<exists>w. xs = ascii ''return'' @ w @ 40 # rest \<and> (\<forall>x \<in> set w. is_space x)"
    by blast
next
  assume "\<exists>w. xs = ascii ''return'' @ w @ 40 # rest \<and> (\<forall>x \<in> set w. is_space x)"
  then obtain w where xs: "xs = ascii ''return'' @ w @ 40 # rest" and w: "\<forall>x \<in> set w. is_space x"
    by blast
  from w have "dropWhile is_space (w @ 40 # rest) = 40 # rest"
    by (intro dropWhile_spaces) (simp_all add: not_space)
  then show "after_return_paren xs = Some rest"
    by (simp add: after_return_paren_def xs starts_with_append return_length)
qed

lemma after_return_jsx_iff:
  "after_return_jsx xs = Some rest \<longleftrightarrow>
     (\<exists>w1 w2 c. xs = ascii ''return'' @ w1 @ 40 # w2 @ 60 # c # rest
        \<and> (\<forall>x \<in> set w1. is_space x) \<and> (\<forall>x \<in> set w2. is_space x) \<and> c \<noteq> 62)"
proof
  assume a: "after_return_jsx xs = Some rest"
  then obtain r1 where r1: "after_return_paren xs = Some r1"
    by (auto simp add: after_return_jsx_def after_return_paren_spaces_def split: option.splits)
  with a obtain c where d: "dropWhile is_space r1 = 60 # c # rest" and c: "c \<noteq> 62"
    by (auto simp add: after_return_jsx_def after_return_paren_spaces_def
        split: option.splits list.splits if_splits)
  from r1 obtain w1 where xs: "xs = ascii ''return'' @ w1 @ 40 # r1" and w1: "\<forall>x \<in> set w1. is_space x"
    unfolding after_return_paren_iff by blast
  have "r1 = takeWhile is_space r1 @ dropWhile is_space r1" by simp
  with d have "r1 = takeWhile is_space r1 @ 60 # c # rest" by simp
  with xs have "xs = ascii ''return'' @ w1 @ 40 # takeWhile is_space r1 @ 60 # c # rest" by simp
  moreover have "\<forall>x \<in> set (takeWhile is_space r1). is_space x"
    by (auto dest: set_takeWhileD)
  ultimately show "\<exists>w1 w2 c. xs = ascii ''return'' @ w1 @ 40 # w2 @ 60 # c # rest
        \<and> (\<forall>x \<in> set w1. is_space x) \<and> (\<forall>x \<in> set w2. is_space x) \<and> c \<noteq> 62"
    using w1 c by blast
next
  assume "\<exists>w1 w2 c. xs = ascii ''return'' @ w1 @ 40 # w2 @ 60 # c # rest
        \<and> (\<forall>x \<in> set w1. is_space x) \<and> (\<forall>x \<in> set w2. is_space x) \<and> c \<noteq> 62"
  then obtain w1 w2 c where xs: "xs = ascii ''return'' @ w1 @ 40 # w2 @ 60 # c # rest"
    and w: "\<forall>x \<in> set w1. is_space x" "\<forall>x \<in> set w2. is_space x" and c: "c \<noteq> 62"
    by blast
  from xs w(1) have "after_return_paren xs = Some (w2 @ 60 # c # rest)"
    unfolding after_return_paren_iff by blast
  moreover from w(2) have "dropWhile is_space (w2 @ 60 # c # rest) = 60 # c # rest"
    by (intro dropWhile_spaces) (simp_all add: not_space)
  ultimately show "after_return_jsx xs = Some rest"
    using c by (simp add: after_return_jsx_def after_return_paren_spaces_def)
qed

text \<open>No second \<open>return\<close> starts inside a match, short of its last character.\<close>

lemma return_not_inside:
  assumes g: "g \<noteq> []"
    and eq: "g @ ascii ''return'' @ y = ascii ''return'' @ w1 @ 40 # w2 @ 60 # z"
    and w: "\<forall>x \<in> set w1. is_space x" "\<forall>x \<in> set w2. is_space x"
  shows "length (ascii ''return'' @ w1 @ 40 # w2 @ [60]) \<le> length g"
proof (rule ccontr)
  let ?T = "w1 @ 40 # w2 @ [60]"
  let ?M = "ascii ''return'' @ ?T"
  assume "\<not> length (ascii ''return'' @ w1 @ 40 # w2 @ [60]) \<le> length g"
  then have k: "length g < length ?M" by simp
  have filler: "x \<noteq> 114" if "x \<in> set ?T" for x
    using that w not_space by auto
  have whole: "g @ ascii ''return'' @ y = ?M @ z" using eq by simp
  have at: "(?M @ z) ! (length g + j) = ascii ''return'' ! j" if "j < 6" for j
  proof -
    have "(g @ ascii ''return'' @ y) ! (length g + j) = (ascii ''return'' @ y) ! j"
      by (simp add: nth_append)
    also have "\<dots> = ascii ''return'' ! j"
      using that by (simp add: nth_append return_length)
    finally show ?thesis using whole by simp
  qed
  from at[of 0] have "(?M @ z) ! length g = 114"
    by (simp add: return_codes)
  moreover from k have "(?M @ z) ! length g = ?M ! length g"
    by (metis nth_append)
  ultimately have r: "?M ! length g = 114" by simp
  show False
  proof (cases "length g < 6")
    case True
    with r have "ascii ''return'' ! length g = 114"
      by (simp add: nth_append return_length)
    with g True have four: "length g = 4"
      by (cases g; cases "tl g"; cases "tl (tl g)"; cases "tl (tl (tl g))";
          cases "tl (tl (tl (tl g)))"; cases "tl (tl (tl (tl (tl g))))")
         (auto simp add: return_codes)
    from at[of 1] four have "(?M @ z) ! 5 = 101" by (simp add: return_codes)
    then show False by (simp add: return_codes)
  next
    case False
    with k have "?M ! length g = ?T ! (length g - 6)" "length g - 6 < length ?T"
      by (simp_all add: nth_append return_length)
    then have "?M ! length g \<in> set ?T" by (metis nth_mem)
    with filler r show False by blast
  qed
qed


lemma regex_search_fails:
  assumes "\<And>st. rmatch r st = []"
  shows "regex_search r b xs = None"
  by (induction xs arbitrary: b) (simp_all add: assms)

lemma double_wrap_never: "\<not> regex_test re_double_wrap inside"
proof -
  have "rmatch (Seq Eol (lit (ascii ''{Provider}'') WordB)) st = []" for st
  proof -
    obtain b xs cs where st: "st = (b, xs, cs)" by (cases st)
    have "\<not> starts_with [] (ascii ''{Provider}'')" by (simp add: ascii_def)
    then show ?thesis
      by (cases xs) (simp_all add: st rmatch_Seq rmatch.simps(11) rmatch_lit)
  qed
  then have "rmatch (Seq spaces (Seq Eol (lit (ascii ''{Provider}'') WordB))) st = []" for st
    by (simp add: rmatch_Seq)
  then have "rmatch re_double_wrap st = []" for st
    by (simp add: re_double_wrap_def rmatch_Seq)
  then show ?thesis
    by (simp add: regex_test_def regex_exec_def regex_search_fails)
qed

lemma scan_close_append:
  "scan_close (u @ v) i d =
     (case scan_close u i d of
        Some e \<Rightarrow> Some e
      | None \<Rightarrow> scan_close v (i + length u) (final_depth u d))"
  by (induction u arbitrary: i d) (auto split: option.splits)

lemma scan_close_no_paren:
  assumes "40 \<notin> set u" "41 \<notin> set u"
  shows "scan_close u i d = None" and "final_depth u d = d"
  using assms by (induction u arbitrary: i d) auto

lemma scan_close_Some:
  "scan_close xs i d = Some e \<Longrightarrow>
     i \<le> e \<and> e < i + length xs \<and> scan_close (take (e - i) xs) i d = None
     \<and> final_depth (take (e - i) xs) d = 0 \<and> xs ! (e - i) = 41"
proof (induction xs arbitrary: i d)
  case Nil
  then show ?case by simp
next
  case (Cons ch rest)
  show ?case
  proof (cases "ch = 41 \<and> d = 0")
    case True
    with Cons.prems show ?thesis by simp
  next
    case False
    define d' where "d' = (if ch = 40 then d + 1 else if ch = 41 then d - 1 else d)"
    from False Cons.prems have rec: "scan_close rest (i + 1) d' = Some e"
      by (auto simp add: d'_def split: if_splits)
    from Cons.IH[OF rec] have ih: "i + 1 \<le> e" "e < i + 1 + length rest"
      "scan_close (take (e - (i + 1)) rest) (i + 1) d' = None"
      "final_depth (take (e - (i + 1)) rest) d' = 0" "rest ! (e - (i + 1)) = 41"
      by simp_all
    from ih(1) obtain n where n: "e - i = Suc n" "e - (i + 1) = n"
      by (metis Suc_diff_Suc Suc_eq_plus1 Suc_le_lessD diff_diff_left plus_1_eq_Suc)
    with ih False show ?thesis
      by (auto simp add: d'_def)
  qed
qed


lemma wrapJSXReturn_extent:
  "wrapJSXReturn code P =
     (case jsx_extent code of
        None \<Rightarrow> code
      | Some (start, endIdx) \<Rightarrow>
          take start code @ open_tag P @ slice code start endIdx @ close_tag P @ drop endIdx code)"
  by (simp add: wrapJSXReturn_def jsx_extent_def double_wrap_never slice_def Let_def
      split: option.splits)

lemma regex_exec_return_jsx:
  "map_option (\<lambda>m. (fst m, fst (snd (snd m)))) (regex_exec re_return_jsx code) =
     find_first after_return_jsx code 0"
  using regex_search_find_first[of re_return_jsx after_return_jsx "[]" code, OF first_match_return_jsx]
  by (simp add: regex_exec_def)

lemma jsx_extent_find:
  "jsx_extent code =
     (case find_first after_return_jsx code 0 of
        None \<Rightarrow> None
      | Some (i, rest) \<Rightarrow>
          (case scan_close (drop (length code - length rest - 1) code)
                  (length code - length rest - 1) 0 of
             None \<Rightarrow> None
           | Some endIdx \<Rightarrow> Some (length code - length rest - 1, endIdx)))"
proof (cases "regex_exec re_return_jsx code")
  case None
  with regex_exec_return_jsx[of code] show ?thesis
    by (simp add: jsx_extent_def)
next
  case (Some m)
  with regex_exec_return_jsx[of code]
  have f: "find_first after_return_jsx code 0 = Some (fst m, match_rest m)"
    by (simp add: match_rest_def)
  from regex_exec_parts(5)[OF Some]
  have "match_index m + length (match_text m) - 1 = length code - length (match_rest m) - 1"
    by simp
  with Some f show ?thesis
    by (simp add: jsx_extent_def Let_def split: option.splits)
qed


lemma scan_close_None_index:
  "scan_close xs i d = None \<Longrightarrow> scan_close xs j d = None"
  by (induction xs arbitrary: i j d) (auto split: if_splits)

lemma tags_no_paren:
  assumes "40 \<notin> set P" "41 \<notin> set P"
  shows "40 \<notin> set (open_tag P)" "41 \<notin> set (open_tag P)"
    "40 \<notin> set (close_tag P)" "41 \<notin> set (close_tag P)"
  using assms by (simp_all add: open_tag_def close_tag_def)

lemma extent_after_wrap:
  assumes ext: "jsx_extent code = Some (start, e)" and P: "40 \<notin> set P" "41 \<notin> set P"
  shows "jsx_extent (take start code @ open_tag P @ slice code start e @ close_tag P @ drop e code)
         = Some (start, e + length (open_tag P) + length (close_tag P))"
proof -
  from ext obtain i rest where f: "find_first after_return_jsx code 0 = Some (i, rest)"
    and st: "start = length code - length rest - 1"
    and sc: "scan_close (drop start code) start 0 = Some e"
    by (auto simp add: jsx_extent_find split: option.splits)
  from f have i: "i \<le> length code" and at: "after_return_jsx (drop i code) = Some rest"
    and least: "\<forall>j < i. after_return_jsx (drop j code) = None"
    by (simp_all add: find_first_Some)
  from at obtain w1 w2 c where dec: "drop i code = ascii ''return'' @ w1 @ 40 # w2 @ 60 # c # rest"
    and w: "\<forall>x \<in> set w1. is_space x" "\<forall>x \<in> set w2. is_space x" and c: "c \<noteq> 62"
    unfolding after_return_jsx_iff by blast
  define pre where "pre = take i code"
  define M where "M = ascii ''return'' @ w1 @ 40 # w2 @ [60]"
  have "code = take i code @ drop i code" by simp
  with dec have code: "code = pre @ M @ c # rest" by (simp add: pre_def M_def)
  have lpre: "length pre = i" using i by (simp add: pre_def)
  have start: "start = length pre + length M" using st code by simp
  have tk: "take start code = pre @ M" using start code by simp
  have dr: "drop start code = c # rest" using start code by simp
  from sc dr have sc': "scan_close (c # rest) start 0 = Some e" by simp
  from scan_close_Some[OF sc'] have e: "start \<le> e" "e < start + length (c # rest)"
    "scan_close (take (e - start) (c # rest)) start 0 = None"
    "final_depth (take (e - start) (c # rest)) 0 = 0" "(c # rest) ! (e - start) = 41"
    by simp_all
  define inside where "inside = take (e - start) (c # rest)"
  define after where "after = drop (e - start) (c # rest)"
  have sl: "slice code start e = inside"
    using dr by (simp add: slice_def inside_def drop_take)
  have af: "drop e code = after"
  proof -
    have "drop e code = drop (e - start) (drop start code)" using e(1) by simp
    with dr show ?thesis by (simp add: after_def)
  qed
  have linside: "length inside = e - start" using e(2) by (simp add: inside_def)
  from e(2) have "e - start < length (c # rest)" using e(1) by simp
  then have after_hd: "after = (c # rest) ! (e - start) # drop (Suc (e - start)) (c # rest)"
    unfolding after_def by (rule Cons_nth_drop_Suc[symmetric])
  define out where "out = pre @ M @ open_tag P @ inside @ close_tag P @ after"
  define rest' where "rest' = P @ [62] @ inside @ close_tag P @ after"
  have out: "out = pre @ ascii ''return'' @ w1 @ 40 # w2 @ 60 # 60 # rest'"
    by (simp add: out_def M_def rest'_def open_tag_def)
  have "drop i out = ascii ''return'' @ w1 @ 40 # w2 @ 60 # 60 # rest'"
    using lpre by (simp add: out)
  with w have out_at: "after_return_jsx (drop i out) = Some rest'"
    unfolding after_return_jsx_iff by (intro exI[of _ w1] exI[of _ w2] exI[of _ 60]) simp
  have out_least: "after_return_jsx (drop j out) = None" if j: "j < i" for j
  proof (rule ccontr)
    assume "after_return_jsx (drop j out) \<noteq> None"
    then obtain r' where "after_return_jsx (drop j out) = Some r'" by auto
    then obtain w1' w2' c' where d': "drop j out = ascii ''return'' @ w1' @ 40 # w2' @ 60 # c' # r'"
      and w': "\<forall>x \<in> set w1'. is_space x" "\<forall>x \<in> set w2'. is_space x" and c': "c' \<noteq> 62"
      unfolding after_return_jsx_iff by blast
    define g where "g = drop j pre"
    have g: "g \<noteq> []" using j lpre by (simp add: g_def)
    have dj_out: "drop j out = g @ ascii ''return'' @ (w1 @ 40 # w2 @ 60 # 60 # rest')"
      using j lpre by (simp add: out g_def)
    have dj_code: "drop j code = g @ ascii ''return'' @ (w1 @ 40 # w2 @ 60 # c # rest)"
      using j lpre by (simp add: code M_def g_def)
    define M' where "M' = ascii ''return'' @ w1' @ 40 # w2' @ [60]"
    from d' dj_out have eq: "g @ ascii ''return'' @ (w1 @ 40 # w2 @ 60 # 60 # rest')
        = ascii ''return'' @ w1' @ 40 # w2' @ 60 # c' # r'" by simp
    from return_not_inside[OF g eq w'] have le: "length M' \<le> length g" by (simp add: M'_def)
    from eq have eq': "g @ ascii ''return'' @ (w1 @ 40 # w2 @ 60 # 60 # rest') = M' @ c' # r'"
      by (simp add: M'_def)
    with le obtain g' where g': "g = M' @ g'"
      by (metis append_eq_append_conv_if append_take_drop_id)
    with eq' have tail: "g' @ ascii ''return'' @ (w1 @ 40 # w2 @ 60 # 60 # rest') = c' # r'" by simp
    obtain c'' r'' where split: "g' @ ascii ''return'' @ (w1 @ 40 # w2 @ 60 # c # rest) = c'' # r''"
      and c'': "c'' \<noteq> 62"
    proof (cases g')
      case Nil
      then show ?thesis using that by (simp add: return_codes)
    next
      case (Cons y ys)
      with tail c' show ?thesis using that by simp
    qed
    from dj_code g' split have "drop j code = ascii ''return'' @ w1' @ 40 # w2' @ 60 # c'' # r''"
      by (simp add: M'_def)
    with w' c'' have "after_return_jsx (drop j code) = Some r''"
      unfolding after_return_jsx_iff by blast
    with least j show False by simp
  qed
  have "i \<le> length out" using lpre by (simp add: out)
  with out_at out_least have ff: "find_first after_return_jsx out 0 = Some (i, rest')"
    by (simp add: find_first_Some)
  have st_out: "length out - length rest' - 1 = start"
    by (simp add: out start M_def)
  have dr_out: "drop start out = open_tag P @ inside @ close_tag P @ after"
    by (simp add: out_def start)
  have ins: "scan_close inside (start + length (open_tag P)) 0 = None" "final_depth inside 0 = 0"
    using e(3,4) scan_close_None_index[of inside start 0] by (simp_all add: inside_def)
  have "scan_close (open_tag P @ inside @ close_tag P @ after) start 0 =
          scan_close after (start + length (open_tag P) + length inside + length (close_tag P)) 0"
    using tags_no_paren[OF P]
    by (simp add: scan_close_append scan_close_no_paren ins)
  also have "\<dots> = Some (start + length (open_tag P) + length inside + length (close_tag P))"
    using e(5) by (subst after_hd) simp
  finally have scan_out: "scan_close (open_tag P @ inside @ close_tag P @ after) start 0 =
      Some (e + length (open_tag P) + length (close_tag P))"
    using linside e(1) by simp
  have "jsx_extent out = Some (start, e + length (open_tag P) + length (close_tag P))"
    unfolding jsx_extent_find ff
    by (simp only: prod.case option.case st_out dr_out scan_out)
  then show ?thesis
    by (simp add: out_def tk sl af)
qed


lemma jsx_extent_bounds:
  assumes "jsx_extent code = Some (start, e)"
  shows "start \<le> e" and "e < length code"
proof -
  from assms obtain i rest where f: "find_first after_return_jsx code 0 = Some (i, rest)"
    and st: "start = length code - length rest - 1"
    and sc: "scan_close (drop start code) start 0 = Some e"
    by (auto simp add: jsx_extent_find split: option.splits)
  from scan_close_Some[OF sc] show "start \<le> e" by simp
  from scan_close_Some[OF sc] have "e < start + length (drop start code)" by simp
  moreover have "start \<le> length code" using st by simp
  ultimately show "e < length code" by simp
qed

section \<open>C2: the guard against a second wrapper\<close>

text \<open>
  C2.  The guard of line 231 matches no text at all: after \<^verbatim>\<open>$\<close> has found the end of
  the input, the \<^verbatim>\<open>{\<close> of \<^verbatim>\<open>{Provider}\<close> has nothing left to read.  So whenever
  the extent to wrap is found, it is wrapped, whatever it holds; and for a provider name
  without parentheses, such as \<open>NotificationsProvider\<close>, the result has the same extent
  start, so that wrapping it again puts a second pair of tags around the first.  The
  function is not idempotent.
\<close>

theorem wrapJSXReturn_wraps_again:
  "\<not> regex_test re_double_wrap inside
   \<and> (\<forall>start endIdx.
        jsx_extent code = Some (start, endIdx) \<longrightarrow> 40 \<notin> set Provider \<longrightarrow> 41 \<notin> set Provider \<longrightarrow>
          wrapJSXReturn code Provider =
            take start code @ open_tag Provider @ slice code start endIdx
              @ close_tag Provider @ drop endIdx code
          \<and> wrapJSXReturn (wrapJSXReturn code Provider) Provider =
              take start code @ open_tag Provider
                @ (open_tag Provider @ slice code start endIdx @ close_tag Provider)
                @ close_tag Provider @ drop endIdx code
          \<and> wrapJSXReturn (wrapJSXReturn code Provider) Provider \<noteq> wrapJSXReturn code Provider)"
proof (intro conjI allI impI)
  show "\<not> regex_test re_double_wrap inside" by (rule double_wrap_never)
next
  fix start endIdx
  assume ext: "jsx_extent code = Some (start, endIdx)"
    and P: "40 \<notin> set Provider" "41 \<notin> set Provider"
  define out where "out = take start code @ open_tag Provider @ slice code start endIdx
      @ close_tag Provider @ drop endIdx code"
  define e' where "e' = endIdx + length (open_tag Provider) + length (close_tag Provider)"
  from jsx_extent_bounds[OF ext] have b: "start \<le> endIdx" "endIdx < length code" .
  have ls: "length (slice code start endIdx) = endIdx - start"
    using b by (simp add: slice_def)
  have lt: "length (take start code) = start" using b by simp
  show first: "wrapJSXReturn code Provider =
            take start code @ open_tag Provider @ slice code start endIdx
              @ close_tag Provider @ drop endIdx code"
    by (simp add: wrapJSXReturn_extent ext)
  have ext': "jsx_extent out = Some (start, e')"
    unfolding out_def e'_def by (rule extent_after_wrap[OF ext P])
  have t: "take start out = take start code"
    using lt by (simp add: out_def)
  have "take e' out = take start code @ open_tag Provider @ slice code start endIdx
      @ close_tag Provider"
    using lt ls b by (simp add: out_def e'_def)
  then have s: "slice out start e' = open_tag Provider @ slice code start endIdx @ close_tag Provider"
    using lt by (simp add: slice_def)
  have d: "drop e' out = drop endIdx code"
    using lt ls b by (simp add: out_def e'_def)
  have "wrapJSXReturn out Provider =
      take start out @ open_tag Provider @ slice out start e' @ close_tag Provider @ drop e' out"
    by (simp add: wrapJSXReturn_extent ext')
  with t s d first show second: "wrapJSXReturn (wrapJSXReturn code Provider) Provider =
              take start code @ open_tag Provider
                @ (open_tag Provider @ slice code start endIdx @ close_tag Provider)
                @ close_tag Provider @ drop endIdx code"
    by (simp add: out_def)
  have "length (wrapJSXReturn (wrapJSXReturn code Provider) Provider)
        \<noteq> length (wrapJSXReturn code Provider)"
    unfolding second unfolding first by (simp add: open_tag_def)
  then show "wrapJSXReturn (wrapJSXReturn code Provider) Provider \<noteq> wrapJSXReturn code Provider"
    by metis
qed

theorem wrapJSXReturn_wraps_again_witness:
  "jsx_extent (ascii ''return (<NotificationsProvider><App /></NotificationsProvider>);'') = Some (9, 62)
   \<and> 40 \<notin> set providerName \<and> 41 \<notin> set providerName
   \<and> wrapJSXReturn (ascii ''return (<NotificationsProvider><App /></NotificationsProvider>);'') providerName
       = ascii ''return (<<NotificationsProvider>NotificationsProvider><App /></NotificationsProvider></NotificationsProvider>);''
   \<and> wrapJSXReturn
         (wrapJSXReturn (ascii ''return (<NotificationsProvider><App /></NotificationsProvider>);'') providerName)
         providerName
       = ascii ''return (<<NotificationsProvider><NotificationsProvider>NotificationsProvider><App /></NotificationsProvider></NotificationsProvider></NotificationsProvider>);''"
proof -
  have ext: "jsx_extent (ascii ''return (<NotificationsProvider><App /></NotificationsProvider>);'') = Some (9, 62)"
    by (simp add: jsx_extent_def re_return_jsx_def regex_eval)
  have P: "40 \<notin> set providerName" "41 \<notin> set providerName"
    by (simp_all add: providerName_def ascii_def)
  from wrapJSXReturn_wraps_again[where code = "ascii ''return (<NotificationsProvider><App /></NotificationsProvider>);''"
      and Provider = providerName] ext P
  have "wrapJSXReturn (ascii ''return (<NotificationsProvider><App /></NotificationsProvider>);'') providerName =
          take 9 (ascii ''return (<NotificationsProvider><App /></NotificationsProvider>);'')
          @ open_tag providerName
          @ slice (ascii ''return (<NotificationsProvider><App /></NotificationsProvider>);'') 9 62
          @ close_tag providerName
          @ drop 62 (ascii ''return (<NotificationsProvider><App /></NotificationsProvider>);'')"
    and "wrapJSXReturn
           (wrapJSXReturn (ascii ''return (<NotificationsProvider><App /></NotificationsProvider>);'') providerName)
           providerName =
          take 9 (ascii ''return (<NotificationsProvider><App /></NotificationsProvider>);'')
          @ open_tag providerName
          @ (open_tag providerName
             @ slice (ascii ''return (<NotificationsProvider><App /></NotificationsProvider>);'') 9 62
             @ close_tag providerName)
          @ close_tag providerName
          @ drop 62 (ascii ''return (<NotificationsProvider><App /></NotificationsProvider>);'')"
    by blast+
  then show ?thesis
    using ext P by (simp add: open_tag_def close_tag_def slice_def providerName_def ascii_def)
qed

end
